theory Spec2Isabelle
  imports Main "HOL-Library.Word"
begin

section \<open>Go values used by the analyzer\<close>

text \<open>
  Go's \<open>int\<close> is a 64-bit two's complement integer on the platforms the survey runs on:
  \<open>+\<close> wraps around and comparisons are signed. A Go \<open>string\<close> is a sequence of bytes,
  here a \<open>char list\<close>; \<open>len\<close> counts bytes.
\<close>

type_synonym go_int = "64 word"

text \<open>
  A run-time panic of the Go code (an index or a slice bound out of range) is a value of
  the model: a function that can panic returns \<open>fault + 'a\<close>.
\<close>

datatype fault = IndexOutOfRange | SliceOutOfRange

definition goIndex :: "'a list \<Rightarrow> nat \<Rightarrow> fault + 'a" where
  "goIndex xs i = (if i < length xs then Inr (xs ! i) else Inl IndexOutOfRange)"

definition goSlice :: "'a list \<Rightarrow> int \<Rightarrow> int \<Rightarrow> fault + 'a list" where
  "goSlice xs lo hi =
     (if 0 \<le> lo \<and> lo \<le> hi \<and> hi \<le> int (length xs)
      then Inr (take (nat hi - nat lo) (drop (nat lo) xs))
      else Inl SliceOutOfRange)"

subsection \<open>Package strings\<close>

definition HasPrefix :: "string \<Rightarrow> string \<Rightarrow> bool" where
  "HasPrefix s p = (take (length p) s = p)"

definition HasSuffix :: "string \<Rightarrow> string \<Rightarrow> bool" where
  "HasSuffix s suffix =
     (length suffix \<le> length s \<and> drop (length s - length suffix) s = suffix)"

fun Contains :: "string \<Rightarrow> string \<Rightarrow> bool" where
  "Contains [] substr = (substr = [])"
| "Contains (c # cs) substr = (if HasPrefix (c # cs) substr then True else Contains cs substr)"

text \<open>
  \<open>strings.ToLower\<close> maps every rune to its lower case. The analyzer only asks whether
  the result contains the ASCII word \<open>client\<close>, and the runes whose lower case is an
  ASCII letter are \<open>A\<close> to \<open>Z\<close>, U+0130 (bytes C4 B0, lower case \<open>i\<close>) and U+212A (bytes
  E2 84 AA, lower case \<open>k\<close>): these are mapped as Go maps them, every other byte is kept.
\<close>

definition lowerByte :: "char \<Rightarrow> char" where
  "lowerByte c =
     (if 65 \<le> (of_char c :: nat) \<and> (of_char c :: nat) \<le> 90
      then char_of ((of_char c :: nat) + 32) else c)"

fun ToLower :: "string \<Rightarrow> string" where
  "ToLower [] = []"
| "ToLower (c # cs) =
     (if HasPrefix (c # cs) [CHR 0xC4, CHR 0xB0] then CHR ''i'' # ToLower (drop 1 cs)
      else if HasPrefix (c # cs) [CHR 0xE2, CHR 0x84, CHR 0xAA] then CHR ''k'' # ToLower (drop 2 cs)
      else lowerByte c # ToLower cs)"

text \<open>
  White space, as \<open>unicode.IsSpace\<close> defines it, by the UTF-8 encoding of each rune:
  U+0009 to U+000D, U+0020, U+0085, U+00A0, U+1680, U+2000 to U+200A, U+2028, U+2029,
  U+202F, U+205F and U+3000. The first byte of each encoding is an ASCII byte or a UTF-8
  lead byte, which never occurs inside the encoding of another rune, so a white space rune
  stands at a position of a string exactly when one of these encodings is a prefix of the
  rest of the string there (and ends at a position exactly when one is a suffix).
\<close>

definition whiteSpace :: "string list" where
  "whiteSpace =
     [[CHR 0x09], [CHR 0x0A], [CHR 0x0B], [CHR 0x0C], [CHR 0x0D], [CHR 0x20],
      [CHR 0xC2, CHR 0x85], [CHR 0xC2, CHR 0xA0],
      [CHR 0xE1, CHR 0x9A, CHR 0x80],
      [CHR 0xE2, CHR 0x80, CHR 0x80], [CHR 0xE2, CHR 0x80, CHR 0x81],
      [CHR 0xE2, CHR 0x80, CHR 0x82], [CHR 0xE2, CHR 0x80, CHR 0x83],
      [CHR 0xE2, CHR 0x80, CHR 0x84], [CHR 0xE2, CHR 0x80, CHR 0x85],
      [CHR 0xE2, CHR 0x80, CHR 0x86], [CHR 0xE2, CHR 0x80, CHR 0x87],
      [CHR 0xE2, CHR 0x80, CHR 0x88], [CHR 0xE2, CHR 0x80, CHR 0x89],
      [CHR 0xE2, CHR 0x80, CHR 0x8A],
      [CHR 0xE2, CHR 0x80, CHR 0xA8], [CHR 0xE2, CHR 0x80, CHR 0xA9],
      [CHR 0xE2, CHR 0x80, CHR 0xAF],
      [CHR 0xE2, CHR 0x81, CHR 0x9F],
      [CHR 0xE3, CHR 0x80, CHR 0x80]]"

definition spaceWidth :: "string \<Rightarrow> nat" where
  "spaceWidth s =
     (case find (HasPrefix s) whiteSpace of None \<Rightarrow> 0 | Some p \<Rightarrow> length p)"

definition lastSpaceWidth :: "string \<Rightarrow> nat" where
  "lastSpaceWidth s =
     (case find (HasSuffix s) whiteSpace of None \<Rightarrow> 0 | Some p \<Rightarrow> length p)"

lemma spaceWidth_le: "spaceWidth s \<le> length s"
proof (cases "find (HasPrefix s) whiteSpace")
  case None
  then show ?thesis by (simp add: spaceWidth_def)
next
  case (Some p)
  then have "HasPrefix s p" by (auto simp: find_Some_iff)
  then have "length (take (length p) s) = length p" by (simp add: HasPrefix_def)
  then have "length p \<le> length s" by simp
  with Some show ?thesis by (simp add: spaceWidth_def)
qed

lemma lastSpaceWidth_le: "lastSpaceWidth s \<le> length s"
proof (cases "find (HasSuffix s) whiteSpace")
  case None
  then show ?thesis by (simp add: lastSpaceWidth_def)
next
  case (Some p)
  then have "HasSuffix s p" by (auto simp: find_Some_iff)
  then have "length p \<le> length s" by (simp add: HasSuffix_def)
  with Some show ?thesis by (simp add: lastSpaceWidth_def)
qed

function trimLeft :: "string \<Rightarrow> string" where
  "trimLeft s = (if spaceWidth s = 0 then s else trimLeft (drop (spaceWidth s) s))"
  by pat_completeness auto
termination
proof (relation "measure length")
  show "wf (measure length)" by simp
next
  fix s :: string
  assume "spaceWidth s \<noteq> 0"
  moreover have "spaceWidth s \<le> length s" by (rule spaceWidth_le)
  ultimately show "(drop (spaceWidth s) s, s) \<in> measure length" by simp
qed

function trimRight :: "string \<Rightarrow> string" where
  "trimRight s =
     (if lastSpaceWidth s = 0 then s else trimRight (take (length s - lastSpaceWidth s) s))"
  by pat_completeness auto
termination
proof (relation "measure length")
  show "wf (measure length)" by simp
next
  fix s :: string
  assume "lastSpaceWidth s \<noteq> 0"
  moreover have "lastSpaceWidth s \<le> length s" by (rule lastSpaceWidth_le)
  ultimately show "(take (length s - lastSpaceWidth s) s, s) \<in> measure length" by simp
qed

declare trimLeft.simps [simp del] trimRight.simps [simp del]

definition TrimSpace :: "string \<Rightarrow> string" where
  "TrimSpace s = trimRight (trimLeft s)"

text \<open>
  \<open>strings.Fields\<close>: the maximal runs of runes that are not white space, in order. The
  first argument is the field being read (Go's \<open>start\<close> index, as the bytes since it).
\<close>

function fieldsFrom :: "string \<Rightarrow> string \<Rightarrow> string list" where
  "fieldsFrom cur [] = (if cur = [] then [] else [cur])"
| "fieldsFrom cur (c # cs) =
     (if spaceWidth (c # cs) = 0 then fieldsFrom (cur @ [c]) cs
      else (if cur = [] then [] else [cur]) @ fieldsFrom [] (drop (spaceWidth (c # cs)) (c # cs)))"
  by pat_completeness auto
termination
proof (relation "measure (\<lambda>(cur, s). length s)")
  show "wf (measure (\<lambda>(cur, s). length s))" by simp
next
  fix cur :: string and c cs
  show "((cur @ [c], cs), cur, c # cs) \<in> measure (\<lambda>(cur, s). length s)" by simp
next
  fix cur :: string and c cs
  assume "spaceWidth (c # cs) \<noteq> 0"
  then show "(([], drop (spaceWidth (c # cs)) (c # cs)), cur, c # cs)
      \<in> measure (\<lambda>(cur, s). length s)"
    by simp
qed

definition Fields :: "string \<Rightarrow> string list" where
  "Fields s = fieldsFrom [] s"

fun Join :: "string list \<Rightarrow> string \<Rightarrow> string" where
  "Join [] sep = []"
| "Join [a] sep = a"
| "Join (a # b # rest) sep = a @ sep @ Join (b # rest) sep"

section \<open>models: signals and thresholds\<close>

record Signal =
  Type :: string
  Line :: int
  Score :: go_int
  Snippet :: string
  Description :: string

definition zeroSignal :: Signal where
  "zeroSignal = \<lparr>Type = [], Line = 0, Score = 0, Snippet = [], Description = []\<rparr>"

definition SignalListUnscoped :: string where "SignalListUnscoped = ''list_unscoped''"
definition SignalListNamespaceScoped :: string where
  "SignalListNamespaceScoped = ''list_namespace_scoped''"
definition SignalListLabelScoped :: string where "SignalListLabelScoped = ''list_label_scoped''"
definition SignalGetReqScoped :: string where "SignalGetReqScoped = ''get_req_scoped''"
definition SignalGetDerived :: string where "SignalGetDerived = ''get_derived''"
definition SignalGetUnrelated :: string where "SignalGetUnrelated = ''get_unrelated''"
definition SignalLoopWrite :: string where "SignalLoopWrite = ''loop_write''"
definition SignalSingleWrite :: string where "SignalSingleWrite = ''single_write''"
definition SignalNotFoundEarlyReturn :: string where
  "SignalNotFoundEarlyReturn = ''notfound_early_return''"
definition SignalNotFoundIgnore :: string where "SignalNotFoundIgnore = ''notfound_ignore''"

definition ThresholdEdgeTriggered :: go_int where "ThresholdEdgeTriggered = - 3"
definition ThresholdMostlyEdge :: go_int where "ThresholdMostlyEdge = 0"
definition ThresholdMostlySoTW :: go_int where "ThresholdMostlySoTW = 3"

section \<open>Classify\<close>

definition Classify :: "Signal list \<Rightarrow> go_int \<times> string" where
  "Classify signals =
     (let score = fold (\<lambda>sig score. score + Score sig) signals 0;
          classification =
            (if score \<le>s ThresholdEdgeTriggered then ''edge_triggered''
             else if score \<le>s ThresholdMostlyEdge then ''mostly_edge''
             else if score \<le>s ThresholdMostlySoTW then ''mostly_sotw''
             else ''sotw'')
      in (score, classification))"

text \<open>The four labels in their order (the spec's ClassificationLabel), as a rank.\<close>

definition labelRank :: "string \<Rightarrow> nat" where
  "labelRank l =
     (if l = ''edge_triggered'' then 0 else if l = ''mostly_edge'' then 1
      else if l = ''mostly_sotw'' then 2 else 3)"

section \<open>The syntax tree (go/ast) as the analyzer reads it\<close>

text \<open>
  What the file set and the printer say about a node travels with the node: the line
  and byte offset of \<open>Pos()\<close>, the byte offset of \<open>End()\<close>, and the text that
  \<open>printer.Fprint\<close> and \<open>format.Node\<close> write for it (\<open>None\<close> when they return an
  error). Only the nodes that the detector reports carry this record.
\<close>

record nodeinfo =
  posLine :: int
  posOffset :: int
  endOffset :: int
  fprint :: "string option"
  formatNode :: "string option"

text \<open>
  The expressions and statements that the analyzer inspects by type are constructors of
  their own; every other kind of expression or statement is \<open>OtherExpr\<close> or
  \<open>OtherStmt\<close> with its children in the order of \<open>ast.Walk\<close> (a function literal, for
  instance, is an \<open>OtherExpr\<close> whose last child is its body). \<open>SelectorExpr x sel\<close> is
  \<open>x.sel\<close>, with \<open>sel\<close> the name of the identifier \<open>Sel\<close>. A field that can be nil in
  Go is an option.
\<close>

datatype expr =
    Ident string
  | SelectorExpr expr string
  | CallExpr nodeinfo expr "expr list"
  | StarExpr expr
  | OtherExpr "node list"
and stmt =
    ExprStmt expr
  | ReturnStmt "expr list"
  | BlockStmt "stmt list"
  | IfStmt nodeinfo "stmt option" expr "stmt list" "stmt option"
  | ForStmt nodeinfo "stmt option" "expr option" "stmt option" "stmt list option"
  | RangeStmt nodeinfo "expr option" "expr option" expr "stmt list option"
  | OtherStmt "node list"
and node = E expr | S stmt

subsection \<open>ast.Inspect\<close>

definition optNode :: "('a \<Rightarrow> node) \<Rightarrow> 'a option \<Rightarrow> node list" where
  "optNode mk x = (case x of None \<Rightarrow> [] | Some y \<Rightarrow> [mk y])"

text \<open>The children of a node that are not nil, in the order in which \<open>ast.Walk\<close> visits them.\<close>

fun children :: "node \<Rightarrow> node list" where
  "children (E (Ident name)) = []"
| "children (E (SelectorExpr x sel)) = [E x, E (Ident sel)]"
| "children (E (CallExpr ni f args)) = E f # map E args"
| "children (E (StarExpr x)) = [E x]"
| "children (E (OtherExpr ns)) = ns"
| "children (S (ExprStmt x)) = [E x]"
| "children (S (ReturnStmt results)) = map E results"
| "children (S (BlockStmt list)) = map S list"
| "children (S (IfStmt ni init cond body els)) =
     optNode S init @ [E cond, S (BlockStmt body)] @ optNode S els"
| "children (S (ForStmt ni init cond post body)) =
     optNode S init @ optNode E cond @ optNode S post @ optNode (\<lambda>b. S (BlockStmt b)) body"
| "children (S (RangeStmt ni key val x body)) =
     optNode E key @ optNode E val @ [E x] @ optNode (\<lambda>b. S (BlockStmt b)) body"
| "children (S (OtherStmt ns)) = ns"

fun isBlock :: "node \<Rightarrow> bool" where
  "isBlock (S (BlockStmt b)) = True"
| "isBlock n = False"

definition walkMeasure :: "node \<Rightarrow> nat" where
  "walkMeasure n = 2 * size n + (if isBlock n then 0 else 1)"

lemma size_list_mem: "x \<in> set xs \<Longrightarrow> size x \<le> size_list size xs"
  by (induction xs) auto

lemma children_size: "c \<in> set (children n) \<Longrightarrow> walkMeasure c < walkMeasure n"
  by (cases n rule: children.cases)
    (auto simp: walkMeasure_def optNode_def split: option.splits dest!: size_list_mem)

text \<open>
  \<open>ast.Inspect(n, f)\<close> calls \<open>f\<close> on \<open>n\<close> and, when \<open>f\<close> returns true, inspects the
  children of \<open>n\<close> in order. The variables that the closure \<open>f\<close> writes are the state
  \<open>'s\<close>. (The closing call \<open>f(nil)\<close> changes nothing in any closure of the analyzer.)
\<close>

function Inspect :: "(node \<Rightarrow> 's \<Rightarrow> bool \<times> 's) \<Rightarrow> node \<Rightarrow> 's \<Rightarrow> 's" where
  "Inspect f n s =
     (case f n s of (descend, s') \<Rightarrow>
        if descend then fold (Inspect f) (children n) s' else s')"
  by pat_completeness auto
termination
  by (relation "measure (\<lambda>(f, n, s). walkMeasure n)") (auto dest: children_size)

declare Inspect.simps [simp del]

text \<open>Every node of the tree below a node, the node first (the order of \<open>ast.Walk\<close>).\<close>

function allNodes :: "node \<Rightarrow> node list" where
  "allNodes n = n # concat (map allNodes (children n))"
  by pat_completeness auto
termination
  by (relation "measure walkMeasure") (auto dest: children_size)

declare allNodes.simps [simp del]

section \<open>Declarations, files and packages\<close>

record ast_Field =
  Names :: "string list"
  FieldType :: expr

text \<open>
  A function declaration: \<open>Params\<close> and \<open>Results\<close> are the field lists of \<open>fn.Type\<close>,
  \<open>Name\<close> is \<open>fn.Name.Name\<close>.
\<close>

record ast_FuncDecl =
  Recv :: "ast_Field list option"
  Name :: string
  Params :: "ast_Field list option"
  Results :: "ast_Field list option"
  Body :: "stmt list option"

datatype ast_Decl = FuncDecl ast_FuncDecl | GenDecl

text \<open>\<open>FileName\<close> is the file name that the file set gives for the position of the file.\<close>

record ast_File =
  FileName :: string
  Decls :: "ast_Decl list"

text \<open>
  \<open>TypesInfo\<close> is the symbol resolver: nil, or the table that \<open>TypeOf\<close> looks an
  expression up in, with the printed type (\<open>String()\<close>) as the entry.
\<close>

record packages_Package =
  PkgPath :: string
  Syntax :: "ast_File list"
  TypesInfo :: "(expr \<times> string) list option"

section \<open>The pattern detector\<close>

record PatternDetector =
  pkg :: packages_Package
  fileData :: "string option"
  reqParamName :: string
  clientFieldNames :: "string list"

definition NewPatternDetector ::
  "packages_Package \<Rightarrow> string option \<Rightarrow> string \<Rightarrow> PatternDetector" where
  "NewPatternDetector p data name =
     \<lparr>pkg = p, fileData = data, reqParamName = name,
      clientFieldNames = [''Client'', ''client'', ''c'']\<rparr>"

subsection \<open>Snippets\<close>

definition truncateSnippet :: "string \<Rightarrow> fault + string" where
  "truncateSnippet s0 =
     (let s1 = TrimSpace s0;
          s2 = Join (Fields s1) '' '';
          maxLen = 200
      in if maxLen < int (length s2)
         then (case goSlice s2 0 maxLen of Inl e \<Rightarrow> Inl e | Inr t \<Rightarrow> Inr (t @ ''...''))
         else Inr s2)"

definition extractSnippet :: "PatternDetector \<Rightarrow> nodeinfo \<Rightarrow> fault + string" where
  "extractSnippet pd ni =
     (let fromFile =
            (case fileData pd of
               None \<Rightarrow> None
             | Some bytes \<Rightarrow>
                 if 0 < length bytes
                 then (let start = posOffset ni; stop = endOffset ni
                       in if 0 \<le> start \<and> stop \<le> int (length bytes) \<and> start < stop
                          then Some (case goSlice bytes start stop of
                                       Inl e \<Rightarrow> Inl e
                                     | Inr snippet \<Rightarrow> truncateSnippet snippet)
                          else None)
                 else None)
      in case fromFile of
           Some r \<Rightarrow> r
         | None \<Rightarrow>
             (case fprint ni of
                Some out \<Rightarrow> truncateSnippet out
              | None \<Rightarrow>
                  (case formatNode ni of
                     Some out \<Rightarrow> truncateSnippet out
                   | None \<Rightarrow> Inr ''<unprintable>'')))"

subsection \<open>Helper methods\<close>

fun isClientIdentifier_loop :: "string list \<Rightarrow> string \<Rightarrow> bool" where
  "isClientIdentifier_loop [] name = False"
| "isClientIdentifier_loop (candidate # rest) name =
     (if name = candidate then True else isClientIdentifier_loop rest name)"

definition isClientIdentifier :: "PatternDetector \<Rightarrow> string \<Rightarrow> bool" where
  "isClientIdentifier pd name =
     (if isClientIdentifier_loop (clientFieldNames pd) name then True
      else Contains (ToLower name) ''client'')"

definition isClientMethod :: "string \<Rightarrow> bool" where
  "isClientMethod methodName =
     (methodName = ''Get'' \<or> methodName = ''List'' \<or> methodName = ''Create'' \<or>
      methodName = ''Update'' \<or> methodName = ''Delete'' \<or> methodName = ''Patch'')"

text \<open>\<open>isClientCall pd x sel\<close> is the Go call on the selector expression \<open>x.sel\<close>.\<close>

fun isClientCall :: "PatternDetector \<Rightarrow> expr \<Rightarrow> string \<Rightarrow> bool" where
  "isClientCall pd (Ident name) methodName =
     (if isClientIdentifier pd name then True else isClientMethod methodName)"
| "isClientCall pd (SelectorExpr x sel) methodName =
     (if isClientIdentifier pd sel then True else isClientCall pd x sel)"
| "isClientCall pd (CallExpr ni (SelectorExpr x2 sel2) args) methodName = isClientCall pd x2 sel2"
| "isClientCall pd x methodName = False"

definition isWriteVerb :: "string \<Rightarrow> bool" where
  "isWriteVerb name =
     (name = ''Create'' \<or> name = ''Update'' \<or> name = ''Delete'' \<or> name = ''Patch'')"

fun reqParamVisitor :: "PatternDetector \<Rightarrow> node \<Rightarrow> bool \<Rightarrow> bool \<times> bool" where
  "reqParamVisitor pd (E (Ident name)) found =
     (if name = reqParamName pd then (False, True) else (True, found))"
| "reqParamVisitor pd n found = (True, found)"

definition referencesReqParam :: "PatternDetector \<Rightarrow> expr \<Rightarrow> bool" where
  "referencesReqParam pd x = Inspect (reqParamVisitor pd) (E x) False"

fun isReqNamespacedName :: "PatternDetector \<Rightarrow> expr \<Rightarrow> bool" where
  "isReqNamespacedName pd (SelectorExpr x sel) =
     (if sel \<noteq> ''NamespacedName'' then False
      else (case x of Ident name \<Rightarrow> name = reqParamName pd | _ \<Rightarrow> False))"
| "isReqNamespacedName pd x = False"

fun isNamespaceOption :: "expr \<Rightarrow> bool" where
  "isNamespaceOption (CallExpr ni (Ident name) args) = Contains name ''InNamespace''"
| "isNamespaceOption (CallExpr ni (SelectorExpr x sel) args) = Contains sel ''InNamespace''"
| "isNamespaceOption x = False"

fun isLabelMatchOption :: "expr \<Rightarrow> bool" where
  "isLabelMatchOption (CallExpr ni (Ident name) args) =
     (Contains name ''MatchingLabels'' \<or> Contains name ''MatchingFields'')"
| "isLabelMatchOption (CallExpr ni (SelectorExpr x sel) args) =
     (Contains sel ''MatchingLabels'' \<or> Contains sel ''MatchingFields'')"
| "isLabelMatchOption x = False"

fun isNotFoundCheck :: "expr \<Rightarrow> bool" where
  "isNotFoundCheck (CallExpr ni (SelectorExpr x sel) args) = (sel = ''IsNotFound'')"
| "isNotFoundCheck x = False"

fun isReturnStmt :: "stmt \<Rightarrow> bool" where
  "isReturnStmt (ReturnStmt results) = True"
| "isReturnStmt s = False"

fun isEarlyReturn :: "stmt list \<Rightarrow> bool" where
  "isEarlyReturn [] = False"
| "isEarlyReturn (s # rest) = (if isReturnStmt s then True else isEarlyReturn rest)"

fun isNilIdent :: "expr \<Rightarrow> bool" where
  "isNilIdent (Ident name) = (name = ''nil'')"
| "isNilIdent x = False"

fun hasNilResult :: "expr list \<Rightarrow> bool" where
  "hasNilResult [] = False"
| "hasNilResult (r # rest) = (if isNilIdent r then True else hasNilResult rest)"

fun isNilReturn :: "stmt list \<Rightarrow> bool" where
  "isNilReturn [] = False"
| "isNilReturn (ReturnStmt results # rest) =
     (if length results = 0 then isNilReturn rest
      else if hasNilResult results then True
      else isNilReturn rest)"
| "isNilReturn (s # rest) = isNilReturn rest"

fun writeVisitor :: "PatternDetector \<Rightarrow> node \<Rightarrow> bool \<Rightarrow> bool \<times> bool" where
  "writeVisitor pd (E (CallExpr ni (SelectorExpr x sel) args)) hasWrite =
     (if isClientCall pd x sel
      then (if isWriteVerb sel then (False, True) else (True, hasWrite))
      else (True, hasWrite))"
| "writeVisitor pd n hasWrite = (True, hasWrite)"

definition hasWriteOperation :: "PatternDetector \<Rightarrow> stmt list \<Rightarrow> bool" where
  "hasWriteOperation pd body = Inspect (writeVisitor pd) (S (BlockStmt body)) False"

subsection \<open>Calls\<close>

text \<open>
  The loop of analyzeListCall over \<open>call.Args[2:]\<close>: the three flags
  (hasReqScopedOpts, hasNamespaceOpt, hasLabelOpt) are the state.
\<close>

definition listOptionFlags ::
  "PatternDetector \<Rightarrow> expr list \<Rightarrow> bool \<times> bool \<times> bool" where
  "listOptionFlags pd opts =
     fold (\<lambda>arg (hasReqScopedOpts, hasNamespaceOpt, hasLabelOpt).
             (if referencesReqParam pd arg then True else hasReqScopedOpts,
              if isNamespaceOption arg then True else hasNamespaceOpt,
              if isLabelMatchOption arg then True else hasLabelOpt))
          opts (False, False, False)"

definition analyzeListCall :: "PatternDetector \<Rightarrow> nodeinfo \<Rightarrow> expr list \<Rightarrow> fault + Signal" where
  "analyzeListCall pd ni args =
     (case extractSnippet pd ni of
        Inl e \<Rightarrow> Inl e
      | Inr snippet \<Rightarrow>
          if length args < 2 then Inr zeroSignal
          else (case goSlice args 2 (int (length args)) of
                  Inl e \<Rightarrow> Inl e
                | Inr opts \<Rightarrow>
                    (case listOptionFlags pd opts of
                       (hasReqScopedOpts, hasNamespaceOpt, hasLabelOpt) \<Rightarrow>
                         if \<not> hasReqScopedOpts
                         then Inr \<lparr>Type = SignalListUnscoped, Line = posLine ni, Score = 3,
                                   Snippet = snippet,
                                   Description = ''client.List without request-scoped selectors''\<rparr>
                         else if hasNamespaceOpt \<and> \<not> hasLabelOpt
                         then Inr \<lparr>Type = SignalListNamespaceScoped, Line = posLine ni, Score = 1,
                                   Snippet = snippet,
                                   Description = ''client.List scoped to request namespace only''\<rparr>
                         else Inr \<lparr>Type = SignalListLabelScoped, Line = posLine ni, Score = 0,
                                   Snippet = snippet,
                                   Description =
                                     ''client.List scoped by labels/fields derived from request''\<rparr>)))"

definition analyzeGetCall :: "PatternDetector \<Rightarrow> nodeinfo \<Rightarrow> expr list \<Rightarrow> fault + Signal" where
  "analyzeGetCall pd ni args =
     (case extractSnippet pd ni of
        Inl e \<Rightarrow> Inl e
      | Inr snippet \<Rightarrow>
          if length args < 3 then Inr zeroSignal
          else (case goIndex args 1 of
                  Inl e \<Rightarrow> Inl e
                | Inr keyArg \<Rightarrow>
                    if isReqNamespacedName pd keyArg
                    then Inr \<lparr>Type = SignalGetReqScoped, Line = posLine ni, Score = - 1,
                              Snippet = snippet,
                              Description =
                                ''client.Get with req.NamespacedName (primary resource fetch)''\<rparr>
                    else if referencesReqParam pd keyArg
                    then Inr \<lparr>Type = SignalGetDerived, Line = posLine ni, Score = - 1,
                              Snippet = snippet,
                              Description = ''client.Get with key derived from request''\<rparr>
                    else Inr \<lparr>Type = SignalGetUnrelated, Line = posLine ni, Score = 1,
                              Snippet = snippet,
                              Description = ''client.Get with key not derived from request''\<rparr>))"

definition analyzeWriteCall :: "PatternDetector \<Rightarrow> nodeinfo \<Rightarrow> string \<Rightarrow> fault + Signal" where
  "analyzeWriteCall pd ni method =
     (case extractSnippet pd ni of
        Inl e \<Rightarrow> Inl e
      | Inr snippet \<Rightarrow>
          Inr \<lparr>Type = SignalSingleWrite, Line = posLine ni, Score = - 1, Snippet = snippet,
               Description = ''client.'' @ method @ '' call''\<rparr>)"

definition appendIfTyped :: "fault + Signal \<Rightarrow> fault + Signal list" where
  "appendIfTyped r =
     (case r of Inl e \<Rightarrow> Inl e | Inr sig \<Rightarrow> if Type sig \<noteq> [] then Inr [sig] else Inr [])"

text \<open>\<open>detectCallPatterns pd ni f args\<close> is the Go call on the call expression \<open>f(args)\<close>.\<close>

fun detectCallPatterns ::
  "PatternDetector \<Rightarrow> nodeinfo \<Rightarrow> expr \<Rightarrow> expr list \<Rightarrow> fault + Signal list" where
  "detectCallPatterns pd ni (SelectorExpr x methodName) args =
     (if \<not> isClientCall pd x methodName then Inr []
      else if methodName = ''List'' then appendIfTyped (analyzeListCall pd ni args)
      else if methodName = ''Get'' then appendIfTyped (analyzeGetCall pd ni args)
      else if methodName = ''Create'' \<or> methodName = ''Update'' \<or> methodName = ''Delete'' \<or>
              methodName = ''Patch''
      then appendIfTyped (analyzeWriteCall pd ni methodName)
      else Inr [])"
| "detectCallPatterns pd ni f args = Inr []"

subsection \<open>Conditionals and loops\<close>

definition detectControlFlowPatterns ::
  "PatternDetector \<Rightarrow> nodeinfo \<Rightarrow> expr \<Rightarrow> stmt list \<Rightarrow> fault + Signal list" where
  "detectControlFlowPatterns pd ni cond body =
     (if isNotFoundCheck cond
      then (if isEarlyReturn body
            then (if isNilReturn body
                  then (case extractSnippet pd ni of
                          Inl e \<Rightarrow> Inl e
                        | Inr snippet \<Rightarrow>
                            Inr [\<lparr>Type = SignalNotFoundIgnore, Line = posLine ni, Score = - 1,
                                  Snippet = snippet,
                                  Description = ''Early return on NotFound (ignores deletes)''\<rparr>])
                  else (case extractSnippet pd ni of
                          Inl e \<Rightarrow> Inl e
                        | Inr snippet \<Rightarrow>
                            Inr [\<lparr>Type = SignalNotFoundEarlyReturn, Line = posLine ni, Score = - 2,
                                  Snippet = snippet,
                                  Description =
                                    ''NotFound handling with delete logic (classic edge-triggered pattern)''\<rparr>]))
            else Inr [])
      else Inr [])"

definition detectLoopPatterns ::
  "PatternDetector \<Rightarrow> nodeinfo \<Rightarrow> stmt list option \<Rightarrow> fault + Signal list" where
  "detectLoopPatterns pd ni forBody =
     (case forBody of
        None \<Rightarrow> Inr []
      | Some body \<Rightarrow>
          if hasWriteOperation pd body
          then (case extractSnippet pd ni of
                  Inl e \<Rightarrow> Inl e
                | Inr snippet \<Rightarrow>
                    Inr [\<lparr>Type = SignalLoopWrite, Line = posLine ni, Score = 3, Snippet = snippet,
                          Description = ''Loop containing write operations (SoTW pattern)''\<rparr>])
          else Inr [])"

definition detectRangeLoopPatterns ::
  "PatternDetector \<Rightarrow> nodeinfo \<Rightarrow> stmt list option \<Rightarrow> fault + Signal list" where
  "detectRangeLoopPatterns pd ni rangeBody =
     (case rangeBody of
        None \<Rightarrow> Inr []
      | Some body \<Rightarrow>
          if hasWriteOperation pd body
          then (case extractSnippet pd ni of
                  Inl e \<Rightarrow> Inl e
                | Inr snippet \<Rightarrow>
                    Inr [\<lparr>Type = SignalLoopWrite, Line = posLine ni, Score = 3, Snippet = snippet,
                          Description = ''Loop containing write operations (SoTW pattern)''\<rparr>])
          else Inr [])"

subsection \<open>DetectPatterns\<close>

text \<open>The type switch of the closure of DetectPatterns: the signals found at one node.\<close>

fun detectAt :: "PatternDetector \<Rightarrow> node \<Rightarrow> fault + Signal list" where
  "detectAt pd (E (CallExpr ni f args)) = detectCallPatterns pd ni f args"
| "detectAt pd (S (IfStmt ni init cond body els)) = detectControlFlowPatterns pd ni cond body"
| "detectAt pd (S (ForStmt ni init cond post body)) = detectLoopPatterns pd ni body"
| "detectAt pd (S (RangeStmt ni key val x body)) = detectRangeLoopPatterns pd ni body"
| "detectAt pd n = Inr []"

text \<open>
  The closure appends to \<open>signals\<close> and returns true. A panic ends the walk in Go; here
  the fault is kept as the state through the nodes that remain.
\<close>

definition detectVisitor ::
  "PatternDetector \<Rightarrow> node \<Rightarrow> fault + Signal list \<Rightarrow> bool \<times> (fault + Signal list)" where
  "detectVisitor pd n st =
     (True,
      case st of
        Inl e \<Rightarrow> Inl e
      | Inr signals \<Rightarrow>
          (case detectAt pd n of Inl e \<Rightarrow> Inl e | Inr sigs \<Rightarrow> Inr (signals @ sigs)))"

definition DetectPatterns :: "PatternDetector \<Rightarrow> ast_FuncDecl \<Rightarrow> fault + Signal list" where
  "DetectPatterns pd fn =
     (case Body fn of
        None \<Rightarrow> Inr []
      | Some body \<Rightarrow> Inspect (detectVisitor pd) (S (BlockStmt body)) (Inr []))"

text \<open>The signals found at one node, without the fault that never occurs.\<close>

definition signalsAt :: "PatternDetector \<Rightarrow> node \<Rightarrow> Signal list" where
  "signalsAt pd n = (case detectAt pd n of Inl e \<Rightarrow> [] | Inr sigs \<Rightarrow> sigs)"

section \<open>The signature matcher\<close>

record ReconcileFunc =
  Pkg :: packages_Package
  File :: ast_File
  Func :: ast_FuncDecl
  ReceiverType :: string
  ReceiverPkg :: string

fun typeNameContains :: "expr \<Rightarrow> packages_Package \<Rightarrow> string \<Rightarrow> bool" where
  "typeNameContains (Ident name) p substr = Contains name substr"
| "typeNameContains (SelectorExpr x sel) p substr = Contains sel substr"
| "typeNameContains t p substr =
     (case TypesInfo p of
        None \<Rightarrow> False
      | Some info \<Rightarrow>
          (case map_of info t of
             None \<Rightarrow> False
           | Some typeName \<Rightarrow> Contains typeName substr))"

definition isContextType :: "expr \<Rightarrow> packages_Package \<Rightarrow> bool" where
  "isContextType t p = typeNameContains t p ''Context''"

definition isRequestType :: "expr \<Rightarrow> packages_Package \<Rightarrow> bool" where
  "isRequestType t p = typeNameContains t p ''Request''"

definition isResultType :: "expr \<Rightarrow> packages_Package \<Rightarrow> bool" where
  "isResultType t p = typeNameContains t p ''Result''"

fun isErrorType :: "expr \<Rightarrow> packages_Package \<Rightarrow> bool" where
  "isErrorType (Ident name) p = (name = ''error'')"
| "isErrorType t p = False"

definition matchesReconcileSignature :: "ast_FuncDecl \<Rightarrow> packages_Package \<Rightarrow> fault + bool" where
  "matchesReconcileSignature fn p =
     (case Params fn of
        None \<Rightarrow> Inr False
      | Some params \<Rightarrow>
     if length params < 2 then Inr False else
     (case Results fn of
        None \<Rightarrow> Inr False
      | Some results \<Rightarrow>
     if length results < 2 then Inr False else
     (case goIndex params 0 of
        Inl e \<Rightarrow> Inl e
      | Inr firstParam \<Rightarrow>
     if \<not> isContextType (FieldType firstParam) p then Inr False else
     (case goIndex params 1 of
        Inl e \<Rightarrow> Inl e
      | Inr secondParam \<Rightarrow>
     if \<not> isRequestType (FieldType secondParam) p then Inr False else
     (case goIndex results 0 of
        Inl e \<Rightarrow> Inl e
      | Inr firstResult \<Rightarrow>
     if \<not> isResultType (FieldType firstResult) p then Inr False else
     if length results < 2 then Inr False else
     (case goIndex results 1 of
        Inl e \<Rightarrow> Inl e
      | Inr secondResult \<Rightarrow>
     if \<not> isErrorType (FieldType secondResult) p then Inr False else Inr True))))))"

fun receiverTypeName :: "expr \<Rightarrow> string" where
  "receiverTypeName (Ident name) = name"
| "receiverTypeName (SelectorExpr x sel) = sel"
| "receiverTypeName t = ''unknown''"

fun derefStar :: "expr \<Rightarrow> expr" where
  "derefStar (StarExpr x) = x"
| "derefStar t = t"

definition extractReceiverInfo ::
  "ast_FuncDecl \<Rightarrow> packages_Package \<Rightarrow> fault + string \<times> string" where
  "extractReceiverInfo fn p =
     (case Recv fn of
        None \<Rightarrow> Inr ([], [])
      | Some recv \<Rightarrow>
          if length recv = 0 then Inr ([], [])
          else (case goIndex recv 0 of
                  Inl e \<Rightarrow> Inl e
                | Inr recvField \<Rightarrow>
                    Inr (receiverTypeName (derefStar (FieldType recvField)), PkgPath p)))"

text \<open>
  The closure that FindReconcileFunctions passes to \<open>ast.Inspect\<close>, at a function
  declaration; \<open>results\<close> is the slice that it appends to.
\<close>

definition visitFuncDecl ::
  "packages_Package \<Rightarrow> ast_File \<Rightarrow> ast_FuncDecl \<Rightarrow> ReconcileFunc list \<Rightarrow>
   fault + ReconcileFunc list" where
  "visitFuncDecl p file fn results =
     (case Recv fn of
        None \<Rightarrow> Inr results
      | Some recv \<Rightarrow>
     if length recv = 0 then Inr results else
     if Name fn \<noteq> ''Reconcile'' then Inr results else
     (case matchesReconcileSignature fn p of
        Inl e \<Rightarrow> Inl e
      | Inr matches \<Rightarrow>
     if \<not> matches then Inr results else
     (case extractReceiverInfo fn p of
        Inl e \<Rightarrow> Inl e
      | Inr (recvType, recvPkg) \<Rightarrow>
          Inr (results @ [\<lparr>Pkg = p, File = file, Func = fn, ReceiverType = recvType,
                           ReceiverPkg = recvPkg\<rparr>]))))"

text \<open>
  In a Go syntax tree the function declarations are the top-level declarations of a file
  (a function inside a function is a function literal), so the nodes at which the closure
  acts are the \<open>FuncDecl\<close> entries of \<open>file.Decls\<close>, in order.
\<close>

fun inspectFile ::
  "packages_Package \<Rightarrow> ast_File \<Rightarrow> ast_Decl list \<Rightarrow> ReconcileFunc list \<Rightarrow>
   fault + ReconcileFunc list" where
  "inspectFile p file [] results = Inr results"
| "inspectFile p file (GenDecl # decls) results = inspectFile p file decls results"
| "inspectFile p file (FuncDecl fn # decls) results =
     (case visitFuncDecl p file fn results of
        Inl e \<Rightarrow> Inl e
      | Inr results' \<Rightarrow> inspectFile p file decls results')"

fun rangeSyntax ::
  "packages_Package \<Rightarrow> ast_File list \<Rightarrow> ReconcileFunc list \<Rightarrow> fault + ReconcileFunc list" where
  "rangeSyntax p [] results = Inr results"
| "rangeSyntax p (file # files) results =
     (if HasSuffix (FileName file) ''_test.go'' then rangeSyntax p files results
      else (case inspectFile p file (Decls file) results of
              Inl e \<Rightarrow> Inl e
            | Inr results' \<Rightarrow> rangeSyntax p files results'))"

fun rangePkgs :: "packages_Package list \<Rightarrow> ReconcileFunc list \<Rightarrow> fault + ReconcileFunc list" where
  "rangePkgs [] results = Inr results"
| "rangePkgs (p # pkgs) results =
     (if HasSuffix (PkgPath p) ''_test'' then rangePkgs pkgs results
      else (case rangeSyntax p (Syntax p) results of
              Inl e \<Rightarrow> Inl e
            | Inr results' \<Rightarrow> rangePkgs pkgs results'))"

definition FindReconcileFunctions :: "packages_Package list \<Rightarrow> fault + ReconcileFunc list" where
  "FindReconcileFunctions pkgs = rangePkgs pkgs []"

section \<open>The words of the specification\<close>

text \<open>A client write-verb call: Create, Update, Delete or Patch on a target that passes the client-call test.\<close>

fun isClientWrite :: "PatternDetector \<Rightarrow> node \<Rightarrow> bool" where
  "isClientWrite pd (E (CallExpr ni (SelectorExpr x sel) args)) =
     (isClientCall pd x sel \<and> isWriteVerb sel)"
| "isClientWrite pd n = False"

text \<open>The unresolved syntactic type name of a type expression, when it has one.\<close>

fun syntacticName :: "expr \<Rightarrow> string option" where
  "syntacticName (Ident name) = Some name"
| "syntacticName (SelectorExpr x sel) = Some sel"
| "syntacticName t = None"

text \<open>
  The capability check as the specification words it: the syntactic name first, and when
  it lacks the marker, the resolved-type description if a resolver is available.
\<close>

definition typeNameContains_spec :: "expr \<Rightarrow> packages_Package \<Rightarrow> string \<Rightarrow> bool" where
  "typeNameContains_spec t p marker =
     (if (case syntacticName t of None \<Rightarrow> False | Some name \<Rightarrow> Contains name marker) then True
      else (case TypesInfo p of
              None \<Rightarrow> False
            | Some info \<Rightarrow>
                (case map_of info t of
                   None \<Rightarrow> False
                 | Some description \<Rightarrow> Contains description marker)))"

text \<open>\<open>FieldList.NumFields\<close>: the number of parameters (or results) that a field list declares.\<close>

definition NumFields :: "ast_Field list option \<Rightarrow> nat" where
  "NumFields fl =
     (case fl of
        None \<Rightarrow> 0
      | Some flds \<Rightarrow>
          sum_list (map (\<lambda>f. if Names f = [] then 1 else length (Names f)) flds))"

text \<open>A candidate without the file and package values it points to.\<close>

definition candidate ::
  "ReconcileFunc \<Rightarrow> string \<times> string \<times> ast_FuncDecl \<times> string \<times> string" where
  "candidate r = (PkgPath (Pkg r), FileName (File r), Func r, ReceiverType r, ReceiverPkg r)"

text \<open>What the closure appends at a function declaration (nothing, or one candidate).\<close>

definition picked :: "packages_Package \<Rightarrow> ast_File \<Rightarrow> ast_FuncDecl \<Rightarrow> ReconcileFunc list" where
  "picked p file fn = (case visitFuncDecl p file fn [] of Inl e \<Rightarrow> [] | Inr rs \<Rightarrow> rs)"

fun pickedDecl :: "packages_Package \<Rightarrow> ast_File \<Rightarrow> ast_Decl \<Rightarrow> ReconcileFunc list" where
  "pickedDecl p file (FuncDecl fn) = picked p file fn"
| "pickedDecl p file GenDecl = []"

definition pickedFile :: "packages_Package \<Rightarrow> ast_File \<Rightarrow> ReconcileFunc list" where
  "pickedFile p file =
     (if HasSuffix (FileName file) ''_test.go'' then []
      else concat (map (pickedDecl p file) (Decls file)))"

definition pickedPkg :: "packages_Package \<Rightarrow> ReconcileFunc list" where
  "pickedPkg p =
     (if HasSuffix (PkgPath p) ''_test'' then [] else concat (map (pickedFile p) (Syntax p)))"

subsection \<open>Snippets in normal form\<close>

text \<open>No white space rune begins at any position of the string.\<close>

fun noSpace :: "string \<Rightarrow> bool" where
  "noSpace [] = True"
| "noSpace (c # cs) = (spaceWidth (c # cs) = 0 \<and> noSpace cs)"

text \<open>No white space rune at the start or at the end of the string.\<close>

definition trimmed :: "string \<Rightarrow> bool" where
  "trimmed s = (spaceWidth s = 0 \<and> lastSpaceWidth s = 0)"

text \<open>
  Every white space rune of the string is a single space character (U+0020) that is
  followed by a rune that is not white space.
\<close>

fun collapsed :: "string \<Rightarrow> bool" where
  "collapsed [] = True"
| "collapsed (c # cs) =
     (if spaceWidth (c # cs) = 0 then collapsed cs
      else c = CHR '' '' \<and> spaceWidth cs = 0 \<and> collapsed cs)"

text \<open>A continuation byte of UTF-8 (10xxxxxx): it never begins the encoding of a rune.\<close>

definition tailByte :: "char \<Rightarrow> bool" where
  "tailByte c = (128 \<le> (of_char c :: nat) \<and> (of_char c :: nat) < 192)"

text \<open>The text that re-rendering the node from the tree gives, when it does not error.\<close>

definition rendered :: "nodeinfo \<Rightarrow> string option" where
  "rendered ni = (case fprint ni of Some out \<Rightarrow> Some out | None \<Rightarrow> formatNode ni)"

text \<open>
  The text a snippet is made from: the bytes from the start offset to the end offset of
  the node when the raw source bytes are present and the offsets are valid, otherwise the
  re-rendered node.
\<close>

definition snippetSource :: "PatternDetector \<Rightarrow> nodeinfo \<Rightarrow> string option" where
  "snippetSource pd ni =
     (case fileData pd of
        None \<Rightarrow> rendered ni
      | Some bytes \<Rightarrow>
          if bytes \<noteq> [] \<and> 0 \<le> posOffset ni \<and> endOffset ni \<le> int (length bytes) \<and>
             posOffset ni < endOffset ni
          then Some (take (nat (endOffset ni) - nat (posOffset ni)) (drop (nat (posOffset ni)) bytes))
          else rendered ni)"

section \<open>Examples\<close>

definition ex_pd :: PatternDetector where
  "ex_pd = NewPatternDetector
     \<lparr>PkgPath = ''example.com/ctrl'', Syntax = [], TypesInfo = None\<rparr> None ''req''"

definition ex_ni :: "int \<Rightarrow> string \<Rightarrow> nodeinfo" where
  "ex_ni line printed =
     \<lparr>posLine = line, posOffset = 0, endOffset = 0, fprint = Some printed, formatNode = None\<rparr>"

text \<open>\<open>r.List(ctx, list, client.InNamespace(ns))\<close>: the namespace does not come from the request.\<close>

definition ex_list_fixed_ns :: expr where
  "ex_list_fixed_ns =
     CallExpr (ex_ni 12 ''r.List(ctx, list, client.InNamespace(ns))'')
       (SelectorExpr (Ident ''r'') ''List'')
       [Ident ''ctx'', Ident ''list'',
        CallExpr (ex_ni 12 ''client.InNamespace(ns)'')
          (SelectorExpr (Ident ''client'') ''InNamespace'') [Ident ''ns'']]"

text \<open>\<open>r.List(ctx, list, client.InNamespace(req.Namespace))\<close>\<close>

definition ex_list_req_ns_args :: "expr list" where
  "ex_list_req_ns_args =
       [Ident ''ctx'', Ident ''list'',
        CallExpr (ex_ni 12 ''client.InNamespace(req.Namespace)'')
          (SelectorExpr (Ident ''client'') ''InNamespace'')
          [SelectorExpr (Ident ''req'') ''Namespace'']]"

definition ex_get_args :: "expr list" where
  "ex_get_args = [Ident ''ctx'', SelectorExpr (Ident ''req'') ''NamespacedName'', Ident ''obj'']"

definition ex_notfound_cond :: expr where
  "ex_notfound_cond =
     CallExpr (ex_ni 25 ''apierrors.IsNotFound(err)'')
       (SelectorExpr (Ident ''apierrors'') ''IsNotFound'') [Ident ''err'']"

text \<open>
  The bodies \<open>{ return ctrl.Result{}, nil }\<close>, \<open>{ r.cleanup(req); return ctrl.Result{}, err }\<close>
  and \<open>{ log.Info(msg) }\<close>.
\<close>

definition ex_body_ignore :: "stmt list" where
  "ex_body_ignore = [ReturnStmt [OtherExpr [E (SelectorExpr (Ident ''ctrl'') ''Result'')], Ident ''nil'']]"

definition ex_body_delete :: "stmt list" where
  "ex_body_delete =
     [ExprStmt (CallExpr (ex_ni 26 ''r.cleanup(req)'') (SelectorExpr (Ident ''r'') ''cleanup'')
                  [Ident ''req'']),
      ReturnStmt [OtherExpr [E (SelectorExpr (Ident ''ctrl'') ''Result'')], Ident ''err'']]"

definition ex_body_log :: "stmt list" where
  "ex_body_log =
     [ExprStmt (CallExpr (ex_ni 26 ''log.Info(msg)'') (SelectorExpr (Ident ''log'') ''Info'')
                  [Ident ''msg''])]"

text \<open>
  The body of \<open>for _, item := range items { r.Update(ctx, item); if stale {
  r.Client.Delete(ctx, item) }; r.Create(ctx, item) }\<close>.
\<close>

definition ex_loop_body :: "stmt list" where
  "ex_loop_body =
     [ExprStmt (CallExpr (ex_ni 31 ''r.Update(ctx, item)'')
        (SelectorExpr (Ident ''r'') ''Update'') [Ident ''ctx'', Ident ''item'']),
      IfStmt (ex_ni 32 ''if stale { r.Client.Delete(ctx, item) }'') None (Ident ''stale'')
        [ExprStmt (CallExpr (ex_ni 33 ''r.Client.Delete(ctx, item)'')
           (SelectorExpr (SelectorExpr (Ident ''r'') ''Client'') ''Delete'')
           [Ident ''ctx'', Ident ''item''])]
        None,
      ExprStmt (CallExpr (ex_ni 35 ''r.Create(ctx, item)'')
        (SelectorExpr (Ident ''r'') ''Create'') [Ident ''ctx'', Ident ''item''])]"

text \<open>
  A package whose resolver knows the type of the identifier \<open>Ctx\<close> (an alias of
  \<open>context.Context\<close>) and of the pointer type \<open>*ctrl.Request\<close>.
\<close>

definition ex_pkg :: packages_Package where
  "ex_pkg =
     \<lparr>PkgPath = ''example.com/ctrl'', Syntax = [],
      TypesInfo = Some [(Ident ''Ctx'', ''context.Context''),
                        (StarExpr (SelectorExpr (Ident ''ctrl'') ''Request''),
                         ''*sigs.k8s.io/controller-runtime.Request'')]\<rparr>"

text \<open>
  \<open>func (r *R) Reconcile(ctx context.Context, req ctrl.Request) (ctrl.Result, error)\<close>,
  and a method of the same name with the request as its only parameter.
\<close>

definition ex_reconcile :: ast_FuncDecl where
  "ex_reconcile =
     \<lparr>Recv = Some [\<lparr>Names = [''r''], FieldType = StarExpr (Ident ''R'')\<rparr>],
      Name = ''Reconcile'',
      Params = Some [\<lparr>Names = [''ctx''], FieldType = SelectorExpr (Ident ''context'') ''Context''\<rparr>,
                     \<lparr>Names = [''req''], FieldType = SelectorExpr (Ident ''ctrl'') ''Request''\<rparr>],
      Results = Some [\<lparr>Names = [], FieldType = SelectorExpr (Ident ''ctrl'') ''Result''\<rparr>,
                      \<lparr>Names = [], FieldType = Ident ''error''\<rparr>],
      Body = Some []\<rparr>"

definition ex_short :: ast_FuncDecl where
  "ex_short =
     \<lparr>Recv = Some [\<lparr>Names = [''q''], FieldType = StarExpr (Ident ''Queue'')\<rparr>],
      Name = ''Reconcile'',
      Params = Some [\<lparr>Names = [''req''], FieldType = SelectorExpr (Ident ''ctrl'') ''Request''\<rparr>],
      Results = Some [\<lparr>Names = [], FieldType = SelectorExpr (Ident ''ctrl'') ''Result''\<rparr>,
                      \<lparr>Names = [], FieldType = Ident ''error''\<rparr>],
      Body = Some []\<rparr>"

definition ex_file :: ast_File where
  "ex_file = \<lparr>FileName = ''controllers/ctrl.go'', Decls = []\<rparr>"

text \<open>
  A package with a file and a test file, and a test package, each declaring the method.
\<close>

definition ex_pkgs :: "packages_Package list" where
  "ex_pkgs =
     [\<lparr>PkgPath = ''example.com/ctrl'',
       Syntax = [\<lparr>FileName = ''controllers/ctrl.go'', Decls = [FuncDecl ex_reconcile]\<rparr>,
                 \<lparr>FileName = ''controllers/ctrl_test.go'', Decls = [FuncDecl ex_reconcile]\<rparr>],
       TypesInfo = None\<rparr>,
      \<lparr>PkgPath = ''example.com/ctrl_test'',
       Syntax = [\<lparr>FileName = ''controllers/fake.go'', Decls = [FuncDecl ex_reconcile]\<rparr>],
       TypesInfo = None\<rparr>]"

definition ex_found :: ReconcileFunc where
  "ex_found =
     \<lparr>Pkg = ex_pkgs ! 0,
      File = \<lparr>FileName = ''controllers/ctrl.go'', Decls = [FuncDecl ex_reconcile]\<rparr>,
      Func = ex_reconcile, ReceiverType = ''R'', ReceiverPkg = ''example.com/ctrl''\<rparr>"

text \<open>
  A source file whose bytes 4 to 49 are a call spread over two lines, with a tab, a
  no-break space (bytes C2 A0) and runs of spaces.
\<close>

definition ex_src_pd :: PatternDetector where
  "ex_src_pd = NewPatternDetector
     \<lparr>PkgPath = ''example.com/ctrl'', Syntax = [], TypesInfo = None\<rparr>
     (Some (''x = '' @ ''r.Get(ctx,   req.NamespacedName,'' @ [CHR 0x0A, CHR 0x09, CHR 0xC2, CHR 0xA0]
            @ ''  obj)'' @ '' ; y''))
     ''req''"

definition ex_src_ni :: nodeinfo where
  "ex_src_ni = \<lparr>posLine = 7, posOffset = 4, endOffset = 46, fprint = None, formatNode = None\<rparr>"

text \<open>
  Scenario A of the specification: \<open>client.Get(ctx, req.NamespacedName, obj)\<close> followed
  by \<open>if apierrors.IsNotFound(err) { return ctrl.Result{}, nil }\<close>.
\<close>

definition ex_scenario_a :: ast_FuncDecl where
  "ex_scenario_a = ex_reconcile
     \<lparr>Body := Some
        [ExprStmt (CallExpr (ex_ni 20 ''client.Get(ctx, req.NamespacedName, obj)'')
           (SelectorExpr (Ident ''client'') ''Get'') ex_get_args),
         IfStmt (ex_ni 21 ''if apierrors.IsNotFound(err) { return ctrl.Result{}, nil }'')
           None ex_notfound_cond ex_body_ignore None]\<rparr>"

section \<open>Scoring and classification: the proofs\<close>

lemma fold_score: "fold (\<lambda>sig score. score + Score sig) sigs a = a + sum_list (map Score sigs)"
  by (induction sigs arbitrary: a) (simp_all add: add.assoc)

lemma Classify_score: "fst (Classify signals) = sum_list (map Score signals)"
  by (simp add: Classify_def Let_def fold_score)

lemma Classify_label:
  "snd (Classify signals) =
     (if sint (fst (Classify signals)) \<le> - 3 then ''edge_triggered''
      else if sint (fst (Classify signals)) \<le> 0 then ''mostly_edge''
      else if sint (fst (Classify signals)) \<le> 3 then ''mostly_sotw''
      else ''sotw'')"
  by (simp add: Classify_def Let_def word_sle_eq ThresholdEdgeTriggered_def
      ThresholdMostlyEdge_def ThresholdMostlySoTW_def)

lemma sum_scores_word_of_int:
  "sum_list (map Score signals) = word_of_int (sum_list (map (\<lambda>s. sint (Score s)) signals))"
  by (induction signals) simp_all

lemma sint_sum_scores:
  assumes "- (2 ^ 63) \<le> sum_list (map (\<lambda>s. sint (Score s)) signals)"
    and "sum_list (map (\<lambda>s. sint (Score s)) signals) < 2 ^ 63"
  shows "sint (sum_list (map Score signals)) = sum_list (map (\<lambda>s. sint (Score s)) signals)"
proof -
  have "sint (sum_list (map Score signals))
      = signed_take_bit (LENGTH(64) - 1) (sum_list (map (\<lambda>s. sint (Score s)) signals))"
    by (simp only: sum_scores_word_of_int sint_sbintrunc')
  also have "\<dots> = sum_list (map (\<lambda>s. sint (Score s)) signals)"
    using assms by (simp add: signed_take_bit_int_eq_self)
  finally show ?thesis .
qed

lemma Classify_eq:
  "Classify signals =
     (sum_list (map Score signals),
      if sint (sum_list (map Score signals)) \<le> - 3 then ''edge_triggered''
      else if sint (sum_list (map Score signals)) \<le> 0 then ''mostly_edge''
      else if sint (sum_list (map Score signals)) \<le> 3 then ''mostly_sotw''
      else ''sotw'')"
  by (simp add: Classify_def Let_def fold_score word_sle_eq ThresholdEdgeTriggered_def
      ThresholdMostlyEdge_def ThresholdMostlySoTW_def)

text \<open>
  C1. For every signal list, Classify returns the sum of the Score fields and the label
  of that sum: a sum of at most -3 gives edge_triggered, a sum above -3 and at most 0
  gives mostly_edge, a sum above 0 and at most 3 gives mostly_sotw, and a sum above 3
  gives sotw. In particular the sums -3, 0, 3 and 4 give edge_triggered, mostly_edge,
  mostly_sotw and sotw; two signal lists with the same sum get the same result; and the
  label never decreases in the order of the four labels when the (signed) sum increases.
  The sum is Go's int sum; when the exact integer sum fits in an int, the label is the
  label of the exact sum.
\<close>

theorem Classify_bands:
  "Classify signals =
     (sum_list (map Score signals),
      if sint (sum_list (map Score signals)) \<le> - 3 then ''edge_triggered''
      else if sint (sum_list (map Score signals)) \<le> 0 then ''mostly_edge''
      else if sint (sum_list (map Score signals)) \<le> 3 then ''mostly_sotw''
      else ''sotw'')
   \<and> (sint (sum_list (map Score signals)) = - 3 \<longrightarrow> Classify signals = (- 3, ''edge_triggered''))
   \<and> (sint (sum_list (map Score signals)) = 0 \<longrightarrow> Classify signals = (0, ''mostly_edge''))
   \<and> (sint (sum_list (map Score signals)) = 3 \<longrightarrow> Classify signals = (3, ''mostly_sotw''))
   \<and> (sint (sum_list (map Score signals)) = 4 \<longrightarrow> Classify signals = (4, ''sotw''))
   \<and> (sum_list (map Score signals) = sum_list (map Score others) \<longrightarrow>
        Classify signals = Classify others)
   \<and> (sint (sum_list (map Score signals)) \<le> sint (sum_list (map Score others)) \<longrightarrow>
        labelRank (snd (Classify signals)) \<le> labelRank (snd (Classify others)))
   \<and> (- (2 ^ 63) \<le> sum_list (map (\<lambda>s. sint (Score s)) signals)
        \<and> sum_list (map (\<lambda>s. sint (Score s)) signals) < 2 ^ 63 \<longrightarrow>
        snd (Classify signals) =
          (if sum_list (map (\<lambda>s. sint (Score s)) signals) \<le> - 3 then ''edge_triggered''
           else if sum_list (map (\<lambda>s. sint (Score s)) signals) \<le> 0 then ''mostly_edge''
           else if sum_list (map (\<lambda>s. sint (Score s)) signals) \<le> 3 then ''mostly_sotw''
           else ''sotw''))"
proof -
  let ?s = "sum_list (map Score signals)"
  let ?o = "sum_list (map Score others)"
  note eq = Classify_eq [of signals]
  have w: "x = word_of_int (sint x)" for x :: go_int by simp
  have b1: "sint ?s = - 3 \<longrightarrow> Classify signals = (- 3, ''edge_triggered'')"
  proof
    assume a: "sint ?s = - 3"
    then have "?s = - 3" using w [of ?s] by simp
    with a show "Classify signals = (- 3, ''edge_triggered'')" by (simp add: Classify_eq)
  qed
  have b2: "sint ?s = 0 \<longrightarrow> Classify signals = (0, ''mostly_edge'')"
  proof
    assume a: "sint ?s = 0"
    then have "?s = 0" using w [of ?s] by simp
    with a show "Classify signals = (0, ''mostly_edge'')" by (simp add: Classify_eq)
  qed
  have b3: "sint ?s = 3 \<longrightarrow> Classify signals = (3, ''mostly_sotw'')"
  proof
    assume a: "sint ?s = 3"
    then have "?s = 3" using w [of ?s] by simp
    with a show "Classify signals = (3, ''mostly_sotw'')" by (simp add: Classify_eq)
  qed
  have b4: "sint ?s = 4 \<longrightarrow> Classify signals = (4, ''sotw'')"
  proof
    assume a: "sint ?s = 4"
    then have "?s = 4" using w [of ?s] by simp
    with a show "Classify signals = (4, ''sotw'')" by (simp add: Classify_eq)
  qed
  have same: "?s = ?o \<longrightarrow> Classify signals = Classify others"
    by (simp add: Classify_eq)
  have mono: "sint ?s \<le> sint ?o \<longrightarrow>
        labelRank (snd (Classify signals)) \<le> labelRank (snd (Classify others))"
    by (simp add: Classify_eq labelRank_def)
  have exact: "- (2 ^ 63) \<le> sum_list (map (\<lambda>s. sint (Score s)) signals)
        \<and> sum_list (map (\<lambda>s. sint (Score s)) signals) < 2 ^ 63 \<longrightarrow>
        snd (Classify signals) =
          (if sum_list (map (\<lambda>s. sint (Score s)) signals) \<le> - 3 then ''edge_triggered''
           else if sum_list (map (\<lambda>s. sint (Score s)) signals) \<le> 0 then ''mostly_edge''
           else if sum_list (map (\<lambda>s. sint (Score s)) signals) \<le> 3 then ''mostly_sotw''
           else ''sotw'')"
  proof
    assume r: "- (2 ^ 63) \<le> sum_list (map (\<lambda>s. sint (Score s)) signals)
        \<and> sum_list (map (\<lambda>s. sint (Score s)) signals) < 2 ^ 63"
    then have "sint ?s = sum_list (map (\<lambda>s. sint (Score s)) signals)"
      by (intro sint_sum_scores) simp_all
    then show "snd (Classify signals) =
          (if sum_list (map (\<lambda>s. sint (Score s)) signals) \<le> - 3 then ''edge_triggered''
           else if sum_list (map (\<lambda>s. sint (Score s)) signals) \<le> 0 then ''mostly_edge''
           else if sum_list (map (\<lambda>s. sint (Score s)) signals) \<le> 3 then ''mostly_sotw''
           else ''sotw'')"
      by (simp add: Classify_eq)
  qed
  show ?thesis
    by (rule conjI [OF eq conjI [OF b1 conjI [OF b2 conjI [OF b3 conjI [OF b4
          conjI [OF same conjI [OF mono exact]]]]]]])
qed

theorem Classify_bands_witness:
  "sint (sum_list (map Score
       [\<lparr>Type = ''get_req_scoped'', Line = 3, Score = - 1, Snippet = [], Description = []\<rparr>,
        \<lparr>Type = ''notfound_early_return'', Line = 4, Score = - 2, Snippet = [], Description = []\<rparr>])) = - 3
   \<and> Classify
       [\<lparr>Type = ''get_req_scoped'', Line = 3, Score = - 1, Snippet = [], Description = []\<rparr>,
        \<lparr>Type = ''notfound_early_return'', Line = 4, Score = - 2, Snippet = [], Description = []\<rparr>]
       = (- 3, ''edge_triggered'')
   \<and> sint (sum_list (map Score
       [\<lparr>Type = ''list_unscoped'', Line = 7, Score = 3, Snippet = [], Description = []\<rparr>,
        \<lparr>Type = ''get_unrelated'', Line = 8, Score = 1, Snippet = [], Description = []\<rparr>])) = 4
   \<and> Classify
       [\<lparr>Type = ''list_unscoped'', Line = 7, Score = 3, Snippet = [], Description = []\<rparr>,
        \<lparr>Type = ''get_unrelated'', Line = 8, Score = 1, Snippet = [], Description = []\<rparr>]
       = (4, ''sotw'')
   \<and> labelRank (snd (Classify
       [\<lparr>Type = ''get_req_scoped'', Line = 3, Score = - 1, Snippet = [], Description = []\<rparr>,
        \<lparr>Type = ''notfound_early_return'', Line = 4, Score = - 2, Snippet = [], Description = []\<rparr>]))
       \<le> labelRank (snd (Classify
       [\<lparr>Type = ''list_unscoped'', Line = 7, Score = 3, Snippet = [], Description = []\<rparr>,
        \<lparr>Type = ''get_unrelated'', Line = 8, Score = 1, Snippet = [], Description = []\<rparr>]))"
proof -
  let ?a = "[\<lparr>Type = ''get_req_scoped'', Line = 3, Score = - 1, Snippet = [], Description = []\<rparr>,
             \<lparr>Type = ''notfound_early_return'', Line = 4, Score = - 2, Snippet = [], Description = []\<rparr>]"
  let ?b = "[\<lparr>Type = ''list_unscoped'', Line = 7, Score = 3, Snippet = [], Description = []\<rparr>,
             \<lparr>Type = ''get_unrelated'', Line = 8, Score = 1, Snippet = [], Description = []\<rparr>]"
  have h1: "sint (sum_list (map Score ?a)) = - 3" by simp
  have h2: "sint (sum_list (map Score ?b)) = 4" by simp
  have h3: "sint (sum_list (map Score ?a)) \<le> sint (sum_list (map Score ?b))"
    by (simp only: h1 h2)
  note ta = Classify_bands [of ?a ?b]
  note tb = Classify_bands [of ?b ?a]
  from ta h1 have r1: "Classify ?a = (- 3, ''edge_triggered'')" by blast
  from tb h2 have r2: "Classify ?b = (4, ''sotw'')" by blast
  from ta h3 have r3: "labelRank (snd (Classify ?a)) \<le> labelRank (snd (Classify ?b))" by blast
  show ?thesis by (rule conjI [OF h1 conjI [OF r1 conjI [OF h2 conjI [OF r2 r3]]]])
qed

text \<open>
  C2. The score that Classify returns is the sum of the Score fields of the signals, in
  Go's int arithmetic; it is the exact integer sum whenever that sum fits in an int. For
  the empty list the score is 0 and the label is mostly_edge.
\<close>

theorem Classify_score_is_sum:
  "fst (Classify signals) = sum_list (map Score signals)
   \<and> Classify [] = (0, ''mostly_edge'')
   \<and> (- (2 ^ 63) \<le> sum_list (map (\<lambda>s. sint (Score s)) signals)
        \<and> sum_list (map (\<lambda>s. sint (Score s)) signals) < 2 ^ 63 \<longrightarrow>
      sint (fst (Classify signals)) = sum_list (map (\<lambda>s. sint (Score s)) signals))"
proof -
  have empty: "Classify [] = (0, ''mostly_edge'')"
    by (simp add: Classify_def Let_def word_sle_eq ThresholdEdgeTriggered_def ThresholdMostlyEdge_def)
  show ?thesis
    by (simp add: Classify_score empty sint_sum_scores)
qed

theorem Classify_score_is_sum_witness:
  "fst (Classify [\<lparr>Type = ''list_unscoped'', Line = 7, Score = 3, Snippet = [], Description = []\<rparr>,
                  \<lparr>Type = ''loop_write'', Line = 9, Score = 3, Snippet = [], Description = []\<rparr>]) = 6
   \<and> - (2 ^ 63) \<le> sum_list (map (\<lambda>s. sint (Score s))
        [\<lparr>Type = ''list_unscoped'', Line = 7, Score = 3, Snippet = [], Description = []\<rparr>,
         \<lparr>Type = ''loop_write'', Line = 9, Score = 3, Snippet = [], Description = []\<rparr>])
   \<and> sum_list (map (\<lambda>s. sint (Score s))
        [\<lparr>Type = ''list_unscoped'', Line = 7, Score = 3, Snippet = [], Description = []\<rparr>,
         \<lparr>Type = ''loop_write'', Line = 9, Score = 3, Snippet = [], Description = []\<rparr>]) < 2 ^ 63
   \<and> sint (fst (Classify [\<lparr>Type = ''list_unscoped'', Line = 7, Score = 3, Snippet = [], Description = []\<rparr>,
                  \<lparr>Type = ''loop_write'', Line = 9, Score = 3, Snippet = [], Description = []\<rparr>])) = 6"
  using Classify_score_is_sum [of "[\<lparr>Type = ''list_unscoped'', Line = 7, Score = 3, Snippet = [], Description = []\<rparr>,
                  \<lparr>Type = ''loop_write'', Line = 9, Score = 3, Snippet = [], Description = []\<rparr>]"]
  by simp

section \<open>Snippet extraction never panics\<close>

lemma goSlice_ok:
  "0 \<le> lo \<Longrightarrow> lo \<le> hi \<Longrightarrow> hi \<le> int (length xs) \<Longrightarrow>
   goSlice xs lo hi = Inr (take (nat hi - nat lo) (drop (nat lo) xs))"
  by (simp add: goSlice_def)

lemma truncateSnippet_eq:
  "truncateSnippet s =
     Inr (if 200 < length (Join (Fields (TrimSpace s)) '' '')
          then take 200 (Join (Fields (TrimSpace s)) '' '') @ ''...''
          else Join (Fields (TrimSpace s)) '' '')"
  by (simp add: truncateSnippet_def Let_def goSlice_def)

lemma truncateSnippet_total: "\<exists>t. truncateSnippet s = Inr t"
  by (simp add: truncateSnippet_eq)

lemma extractSnippet_total: "\<exists>t. extractSnippet pd ni = Inr t"
proof -
  have slice: "\<exists>t. (case goSlice bytes lo hi of Inl e \<Rightarrow> Inl e | Inr snippet \<Rightarrow> truncateSnippet snippet) = Inr t"
    if "0 \<le> lo" "hi \<le> int (length bytes)" "lo < hi" for bytes :: string and lo hi
    using that by (simp add: goSlice_def truncateSnippet_eq)
  show ?thesis
    unfolding extractSnippet_def Let_def
    using slice by (auto simp: truncateSnippet_eq split: option.splits)
qed

section \<open>The loop over the options of a List call\<close>

lemma listOptionFlags_fold:
  "fold (\<lambda>arg (hasReqScopedOpts, hasNamespaceOpt, hasLabelOpt).
             (if referencesReqParam pd arg then True else hasReqScopedOpts,
              if isNamespaceOption arg then True else hasNamespaceOpt,
              if isLabelMatchOption arg then True else hasLabelOpt))
          opts (a, b, c)
   = (a \<or> list_ex (referencesReqParam pd) opts,
      b \<or> list_ex isNamespaceOption opts,
      c \<or> list_ex isLabelMatchOption opts)"
  by (induction opts arbitrary: a b c) auto

lemma listOptionFlags_eq:
  "listOptionFlags pd opts =
     (list_ex (referencesReqParam pd) opts, list_ex isNamespaceOption opts,
      list_ex isLabelMatchOption opts)"
  by (simp add: listOptionFlags_def listOptionFlags_fold)

lemma goSlice_from: "2 \<le> length args \<Longrightarrow> goSlice args 2 (int (length args)) = Inr (drop 2 args)"
  by (simp add: goSlice_def)

text \<open>
  C3. A namespace-scope option does not by itself give list_namespace_scoped:
  analyzeListCall first asks whether any option references the request parameter and
  answers list_unscoped when none does. With that condition: for a List call that passes
  the client-call test and has at least two arguments, if some argument after the first
  two references the request parameter, some argument after the first two is a
  namespace-scope option call, and none is a label/field-scope option call, then the
  detector emits, for that call, exactly the signal list_namespace_scoped with score +1,
  at the line of the call.
\<close>

theorem list_namespace_scoped:
  assumes "isClientCall pd x ''List''"
    and "2 \<le> length args"
    and "list_ex (referencesReqParam pd) (drop 2 args)"
    and "list_ex isNamespaceOption (drop 2 args)"
    and "\<not> list_ex isLabelMatchOption (drop 2 args)"
  shows "\<exists>snippet. extractSnippet pd ni = Inr snippet \<and>
           detectAt pd (E (CallExpr ni (SelectorExpr x ''List'') args)) =
             Inr [\<lparr>Type = SignalListNamespaceScoped, Line = posLine ni, Score = 1,
                   Snippet = snippet,
                   Description = ''client.List scoped to request namespace only''\<rparr>]"
proof -
  obtain snippet where sn: "extractSnippet pd ni = Inr snippet"
    using extractSnippet_total by blast
  have "analyzeListCall pd ni args =
          Inr \<lparr>Type = SignalListNamespaceScoped, Line = posLine ni, Score = 1,
                   Snippet = snippet,
                   Description = ''client.List scoped to request namespace only''\<rparr>"
    using assms by (simp add: analyzeListCall_def sn goSlice_from listOptionFlags_eq)
  then have "detectCallPatterns pd ni (SelectorExpr x ''List'') args =
             Inr [\<lparr>Type = SignalListNamespaceScoped, Line = posLine ni, Score = 1,
                   Snippet = snippet,
                   Description = ''client.List scoped to request namespace only''\<rparr>]"
    using assms(1) by (simp add: appendIfTyped_def SignalListNamespaceScoped_def)
  with sn show ?thesis by simp
qed

text \<open>
  The call \<open>r.List(ctx, list, client.InNamespace(ns))\<close> has a namespace-scope option and no
  label/field-scope option, and the detector emits list_unscoped with score +3 for it.
\<close>

theorem list_namespace_option_unscoped_counterexample:
  "isClientCall ex_pd (Ident ''r'') ''List''
   \<and> 2 \<le> length [Ident ''ctx'', Ident ''list'',
        CallExpr (ex_ni 12 ''client.InNamespace(ns)'')
          (SelectorExpr (Ident ''client'') ''InNamespace'') [Ident ''ns'']]
   \<and> list_ex isNamespaceOption (drop 2 [Ident ''ctx'', Ident ''list'',
        CallExpr (ex_ni 12 ''client.InNamespace(ns)'')
          (SelectorExpr (Ident ''client'') ''InNamespace'') [Ident ''ns'']])
   \<and> \<not> list_ex isLabelMatchOption (drop 2 [Ident ''ctx'', Ident ''list'',
        CallExpr (ex_ni 12 ''client.InNamespace(ns)'')
          (SelectorExpr (Ident ''client'') ''InNamespace'') [Ident ''ns'']])
   \<and> detectAt ex_pd (E ex_list_fixed_ns) =
       Inr [\<lparr>Type = ''list_unscoped'', Line = 12, Score = 3,
             Snippet = ''r.List(ctx, list, client.InNamespace(ns))'',
             Description = ''client.List without request-scoped selectors''\<rparr>]"
  by code_simp

theorem list_namespace_scoped_witness:
  "isClientCall ex_pd (Ident ''r'') ''List''
   \<and> 2 \<le> length ex_list_req_ns_args
   \<and> list_ex (referencesReqParam ex_pd) (drop 2 ex_list_req_ns_args)
   \<and> list_ex isNamespaceOption (drop 2 ex_list_req_ns_args)
   \<and> \<not> list_ex isLabelMatchOption (drop 2 ex_list_req_ns_args)
   \<and> detectAt ex_pd (E (CallExpr (ex_ni 12 ''r.List(ctx, list, client.InNamespace(req.Namespace))'')
         (SelectorExpr (Ident ''r'') ''List'') ex_list_req_ns_args)) =
       Inr [\<lparr>Type = ''list_namespace_scoped'', Line = 12, Score = 1,
             Snippet = ''r.List(ctx, list, client.InNamespace(req.Namespace))'',
             Description = ''client.List scoped to request namespace only''\<rparr>]"
proof -
  let ?ni = "ex_ni 12 ''r.List(ctx, list, client.InNamespace(req.Namespace))''"
  have h1: "isClientCall ex_pd (Ident ''r'') ''List''" by code_simp
  have h2: "2 \<le> length ex_list_req_ns_args" by code_simp
  have h3: "list_ex (referencesReqParam ex_pd) (drop 2 ex_list_req_ns_args)" by code_simp
  have h4: "list_ex isNamespaceOption (drop 2 ex_list_req_ns_args)" by code_simp
  have h5: "\<not> list_ex isLabelMatchOption (drop 2 ex_list_req_ns_args)" by code_simp
  have sn: "extractSnippet ex_pd ?ni = Inr ''r.List(ctx, list, client.InNamespace(req.Namespace))''"
    by code_simp
  have line: "posLine ?ni = 12" by (simp add: ex_ni_def)
  from list_namespace_scoped [OF h1 h2 h3 h4 h5, of ?ni] sn line
  have r: "detectAt ex_pd (E (CallExpr ?ni (SelectorExpr (Ident ''r'') ''List'') ex_list_req_ns_args)) =
       Inr [\<lparr>Type = ''list_namespace_scoped'', Line = 12, Score = 1,
             Snippet = ''r.List(ctx, list, client.InNamespace(req.Namespace))'',
             Description = ''client.List scoped to request namespace only''\<rparr>]"
    by (auto simp: SignalListNamespaceScoped_def)
  show ?thesis by (rule conjI [OF h1 conjI [OF h2 conjI [OF h3 conjI [OF h4 conjI [OF h5 r]]]]])
qed

section \<open>Get calls\<close>

text \<open>
  C4. For a Get call that passes the client-call test and has at least three arguments,
  whose second argument is the selector NamespacedName on the identifier that names the
  request parameter, the detector emits exactly one signal for that call: get_req_scoped
  with score -1 (which is neither get_derived nor get_unrelated), whatever the package
  and its resolver are.
\<close>

theorem get_req_scoped:
  assumes "isClientCall pd x ''Get''"
    and "3 \<le> length args"
    and "args ! 1 = SelectorExpr (Ident (reqParamName pd)) ''NamespacedName''"
  shows "\<exists>snippet. extractSnippet pd ni = Inr snippet \<and>
           detectAt pd (E (CallExpr ni (SelectorExpr x ''Get'') args)) =
             Inr [\<lparr>Type = SignalGetReqScoped, Line = posLine ni, Score = - 1,
                   Snippet = snippet,
                   Description = ''client.Get with req.NamespacedName (primary resource fetch)''\<rparr>]
           \<and> SignalGetReqScoped \<noteq> SignalGetDerived
           \<and> SignalGetReqScoped \<noteq> SignalGetUnrelated"
proof -
  obtain snippet where sn: "extractSnippet pd ni = Inr snippet"
    using extractSnippet_total by blast
  have key: "goIndex args 1 = Inr (SelectorExpr (Ident (reqParamName pd)) ''NamespacedName'')"
    using assms(2,3) by (simp add: goIndex_def)
  have "analyzeGetCall pd ni args =
          Inr \<lparr>Type = SignalGetReqScoped, Line = posLine ni, Score = - 1,
                   Snippet = snippet,
                   Description = ''client.Get with req.NamespacedName (primary resource fetch)''\<rparr>"
    using assms(2) key by (simp add: analyzeGetCall_def sn)
  then have "detectCallPatterns pd ni (SelectorExpr x ''Get'') args =
             Inr [\<lparr>Type = SignalGetReqScoped, Line = posLine ni, Score = - 1,
                   Snippet = snippet,
                   Description = ''client.Get with req.NamespacedName (primary resource fetch)''\<rparr>]"
    using assms(1) by (simp add: appendIfTyped_def SignalGetReqScoped_def)
  with sn show ?thesis
    by (simp add: SignalGetReqScoped_def SignalGetDerived_def SignalGetUnrelated_def)
qed

theorem get_req_scoped_witness:
  "isClientCall ex_pd (SelectorExpr (Ident ''r'') ''Client'') ''Get''
   \<and> 3 \<le> length ex_get_args
   \<and> ex_get_args ! 1 = SelectorExpr (Ident (reqParamName ex_pd)) ''NamespacedName''
   \<and> detectAt ex_pd (E (CallExpr (ex_ni 20 ''r.Client.Get(ctx,  req.NamespacedName, obj)'')
         (SelectorExpr (SelectorExpr (Ident ''r'') ''Client'') ''Get'') ex_get_args)) =
       Inr [\<lparr>Type = ''get_req_scoped'', Line = 20, Score = - 1,
             Snippet = ''r.Client.Get(ctx, req.NamespacedName, obj)'',
             Description = ''client.Get with req.NamespacedName (primary resource fetch)''\<rparr>]"
proof -
  let ?ni = "ex_ni 20 ''r.Client.Get(ctx,  req.NamespacedName, obj)''"
  have h1: "isClientCall ex_pd (SelectorExpr (Ident ''r'') ''Client'') ''Get''" by code_simp
  have h2: "3 \<le> length ex_get_args" by code_simp
  have h3: "ex_get_args ! 1 = SelectorExpr (Ident (reqParamName ex_pd)) ''NamespacedName''"
    by code_simp
  have sn: "extractSnippet ex_pd ?ni = Inr ''r.Client.Get(ctx, req.NamespacedName, obj)''"
    by code_simp
  have line: "posLine ?ni = 20" by (simp add: ex_ni_def)
  from get_req_scoped [OF h1 h2 h3, of ?ni] sn line
  have r: "detectAt ex_pd (E (CallExpr ?ni
         (SelectorExpr (SelectorExpr (Ident ''r'') ''Client'') ''Get'') ex_get_args)) =
       Inr [\<lparr>Type = ''get_req_scoped'', Line = 20, Score = - 1,
             Snippet = ''r.Client.Get(ctx, req.NamespacedName, obj)'',
             Description = ''client.Get with req.NamespacedName (primary resource fetch)''\<rparr>]"
    by (auto simp: SignalGetReqScoped_def)
  show ?thesis by (rule conjI [OF h1 conjI [OF h2 conjI [OF h3 r]]])
qed

section \<open>NotFound conditionals\<close>

lemma isEarlyReturn_iff: "isEarlyReturn body = (\<exists>results. ReturnStmt results \<in> set body)"
proof (induction body)
  case Nil
  show ?case by simp
next
  case (Cons s rest)
  show ?case
  proof (cases s)
    case (ReturnStmt results)
    then show ?thesis by auto
  qed (use Cons in auto)
qed

lemma hasNilResult_iff: "hasNilResult results = (Ident ''nil'' \<in> set results)"
proof (induction results)
  case Nil
  show ?case by simp
next
  case (Cons r rest)
  then show ?case by (cases r) auto
qed

lemma isNilReturn_iff:
  "isNilReturn body = (\<exists>results. ReturnStmt results \<in> set body \<and> Ident ''nil'' \<in> set results)"
proof (induction body rule: isNilReturn.induct)
  case 1
  show ?case by simp
next
  case (2 results rest)
  then show ?case by (auto simp: hasNilResult_iff)
qed auto

text \<open>
  C6. For an if statement whose condition is a call of a member named IsNotFound: when a
  statement of the body is a return statement and some return statement of the body has
  the identifier nil among its values, the detector emits exactly notfound_ignore with
  score -1; when a statement of the body is a return statement and none has nil among its
  values, exactly notfound_early_return with score -2; when no statement of the body is a
  return statement, no signal.
\<close>

theorem notfound_conditional:
  "\<exists>snippet. extractSnippet pd ni = Inr snippet \<and>
     detectAt pd (S (IfStmt ni init (CallExpr ci (SelectorExpr x ''IsNotFound'') cargs) body els)) =
       (if \<exists>results. ReturnStmt results \<in> set body
        then (if \<exists>results. ReturnStmt results \<in> set body \<and> Ident ''nil'' \<in> set results
              then Inr [\<lparr>Type = SignalNotFoundIgnore, Line = posLine ni, Score = - 1,
                         Snippet = snippet,
                         Description = ''Early return on NotFound (ignores deletes)''\<rparr>]
              else Inr [\<lparr>Type = SignalNotFoundEarlyReturn, Line = posLine ni, Score = - 2,
                         Snippet = snippet,
                         Description =
                           ''NotFound handling with delete logic (classic edge-triggered pattern)''\<rparr>])
        else Inr [])"
proof -
  obtain snippet where sn: "extractSnippet pd ni = Inr snippet"
    using extractSnippet_total by blast
  show ?thesis
    by (auto simp: sn detectControlFlowPatterns_def isEarlyReturn_iff isNilReturn_iff)
qed

theorem notfound_conditional_witness:
  "detectAt ex_pd (S (IfStmt (ex_ni 25 ''if apierrors.IsNotFound(err) { return ctrl.Result{}, nil }'')
       None ex_notfound_cond ex_body_ignore None)) =
     Inr [\<lparr>Type = ''notfound_ignore'', Line = 25, Score = - 1,
           Snippet = ''if apierrors.IsNotFound(err) { return ctrl.Result{}, nil }'',
           Description = ''Early return on NotFound (ignores deletes)''\<rparr>]
   \<and> detectAt ex_pd (S (IfStmt (ex_ni 25 ''if apierrors.IsNotFound(err) { ... }'')
       None ex_notfound_cond ex_body_delete None)) =
     Inr [\<lparr>Type = ''notfound_early_return'', Line = 25, Score = - 2,
           Snippet = ''if apierrors.IsNotFound(err) { ... }'',
           Description = ''NotFound handling with delete logic (classic edge-triggered pattern)''\<rparr>]
   \<and> detectAt ex_pd (S (IfStmt (ex_ni 25 ''if apierrors.IsNotFound(err) { ... }'')
       None ex_notfound_cond ex_body_log None)) = Inr []"
proof -
  let ?n1 = "ex_ni 25 ''if apierrors.IsNotFound(err) { return ctrl.Result{}, nil }''"
  let ?n2 = "ex_ni 25 ''if apierrors.IsNotFound(err) { ... }''"
  let ?ci = "ex_ni 25 ''apierrors.IsNotFound(err)''"
  have s1: "extractSnippet ex_pd ?n1 =
      Inr ''if apierrors.IsNotFound(err) { return ctrl.Result{}, nil }''"
    by code_simp
  have s2: "extractSnippet ex_pd ?n2 = Inr ''if apierrors.IsNotFound(err) { ... }''"
    by code_simp
  have l1: "posLine ?n1 = 25" and l2: "posLine ?n2 = 25" by (simp_all add: ex_ni_def)
  have b1: "\<exists>results. ReturnStmt results \<in> set ex_body_ignore \<and> Ident ''nil'' \<in> set results"
    by (simp add: ex_body_ignore_def)
  then have b1': "\<exists>results. ReturnStmt results \<in> set ex_body_ignore" by blast
  have b2: "\<exists>results. ReturnStmt results \<in> set ex_body_delete"
    by (simp add: ex_body_delete_def)
  have b2': "\<not> (\<exists>results. ReturnStmt results \<in> set ex_body_delete \<and> Ident ''nil'' \<in> set results)"
    by (auto simp: ex_body_delete_def)
  have b3: "\<not> (\<exists>results. ReturnStmt results \<in> set ex_body_log)"
    by (simp add: ex_body_log_def)
  have r1: "detectAt ex_pd (S (IfStmt ?n1 None ex_notfound_cond ex_body_ignore None)) =
     Inr [\<lparr>Type = ''notfound_ignore'', Line = 25, Score = - 1,
           Snippet = ''if apierrors.IsNotFound(err) { return ctrl.Result{}, nil }'',
           Description = ''Early return on NotFound (ignores deletes)''\<rparr>]"
    using notfound_conditional [of ex_pd ?n1 None ?ci "Ident ''apierrors''" "[Ident ''err'']"
        ex_body_ignore None] s1 l1 b1 b1'
    unfolding ex_notfound_cond_def by (auto simp: SignalNotFoundIgnore_def)
  have r2: "detectAt ex_pd (S (IfStmt ?n2 None ex_notfound_cond ex_body_delete None)) =
     Inr [\<lparr>Type = ''notfound_early_return'', Line = 25, Score = - 2,
           Snippet = ''if apierrors.IsNotFound(err) { ... }'',
           Description = ''NotFound handling with delete logic (classic edge-triggered pattern)''\<rparr>]"
    using notfound_conditional [of ex_pd ?n2 None ?ci "Ident ''apierrors''" "[Ident ''err'']"
        ex_body_delete None] s2 l2 b2 b2'
    unfolding ex_notfound_cond_def by (auto simp: SignalNotFoundEarlyReturn_def)
  have r3: "detectAt ex_pd (S (IfStmt ?n2 None ex_notfound_cond ex_body_log None)) = Inr []"
    using notfound_conditional [of ex_pd ?n2 None ?ci "Ident ''apierrors''" "[Ident ''err'']"
        ex_body_log None] b3
    unfolding ex_notfound_cond_def by auto
  show ?thesis by (rule conjI [OF r1 conjI [OF r2 r3]])
qed

section \<open>Loops\<close>

lemma writeVisitor_eq:
  "writeVisitor pd n s = (if isClientWrite pd n then (False, True) else (True, s))"
  by (cases "(pd, n, s)" rule: writeVisitor.cases) auto

lemma fold_Inspect_any:
  assumes "\<And>c s. c \<in> set cs \<Longrightarrow> Inspect f c s = (s \<or> P c)"
  shows "fold (Inspect f) cs s = (s \<or> list_ex P cs)"
  using assms by (induction cs arbitrary: s) auto

lemma list_ex_concat_map: "list_ex Q (concat (map g cs)) = list_ex (\<lambda>c. list_ex Q (g c)) cs"
  by (induction cs) auto

lemma Inspect_writeVisitor:
  "Inspect (writeVisitor pd) n s = (s \<or> list_ex (isClientWrite pd) (allNodes n))"
proof (induction n arbitrary: s rule: allNodes.induct)
  case (1 n)
  have kids: "fold (Inspect (writeVisitor pd)) (children n) s' =
      (s' \<or> list_ex (\<lambda>c. list_ex (isClientWrite pd) (allNodes c)) (children n))" for s'
    by (rule fold_Inspect_any) (rule 1)
  show ?case
  proof (cases "isClientWrite pd n")
    case True
    then show ?thesis
      by (subst Inspect.simps, subst allNodes.simps) (simp add: writeVisitor_eq)
  next
    case False
    then show ?thesis
      by (subst Inspect.simps, subst allNodes.simps)
        (simp add: writeVisitor_eq kids list_ex_concat_map)
  qed
qed

lemma hasWriteOperation_iff:
  "hasWriteOperation pd body = list_ex (isClientWrite pd) (allNodes (S (BlockStmt body)))"
  by (simp add: hasWriteOperation_def Inspect_writeVisitor)

text \<open>
  C5. For a for loop or a range loop whose body has at least one client write-verb call
  among all the nodes below it, the detector emits, at the loop, exactly one signal:
  loop_write with score +3 at the line of the loop, however many such calls there are.
\<close>

theorem loop_write_once:
  assumes "1 \<le> length (filter (isClientWrite pd) (allNodes (S (BlockStmt body))))"
  shows "\<exists>snippet. extractSnippet pd ni = Inr snippet \<and>
           detectAt pd (S (ForStmt ni init cond post (Some body))) =
             Inr [\<lparr>Type = SignalLoopWrite, Line = posLine ni, Score = 3, Snippet = snippet,
                   Description = ''Loop containing write operations (SoTW pattern)''\<rparr>]
           \<and> detectAt pd (S (RangeStmt ni key val x (Some body))) =
             Inr [\<lparr>Type = SignalLoopWrite, Line = posLine ni, Score = 3, Snippet = snippet,
                   Description = ''Loop containing write operations (SoTW pattern)''\<rparr>]"
proof -
  obtain snippet where sn: "extractSnippet pd ni = Inr snippet"
    using extractSnippet_total by blast
  from assms have "filter (isClientWrite pd) (allNodes (S (BlockStmt body))) \<noteq> []"
    by auto
  then have "\<exists>n \<in> set (allNodes (S (BlockStmt body))). isClientWrite pd n"
    by (simp add: filter_empty_conv)
  then have "hasWriteOperation pd body"
    by (simp add: hasWriteOperation_iff list_ex_iff)
  then show ?thesis
    by (simp add: sn detectLoopPatterns_def detectRangeLoopPatterns_def)
qed

theorem loop_write_once_witness:
  "1 \<le> length (filter (isClientWrite ex_pd) (allNodes (S (BlockStmt ex_loop_body))))
   \<and> length (filter (isClientWrite ex_pd) (allNodes (S (BlockStmt ex_loop_body)))) = 3
   \<and> detectAt ex_pd (S (RangeStmt (ex_ni 30 ''for _, item := range items { ... }'')
        (Some (Ident ''_'')) (Some (Ident ''item'')) (Ident ''items'') (Some ex_loop_body))) =
      Inr [\<lparr>Type = ''loop_write'', Line = 30, Score = 3,
            Snippet = ''for _, item := range items { ... }'',
            Description = ''Loop containing write operations (SoTW pattern)''\<rparr>]"
proof -
  let ?ni = "ex_ni 30 ''for _, item := range items { ... }''"
  have n: "length (filter (isClientWrite ex_pd) (allNodes (S (BlockStmt ex_loop_body)))) = 3"
    by code_simp
  then have h: "1 \<le> length (filter (isClientWrite ex_pd) (allNodes (S (BlockStmt ex_loop_body))))"
    by simp
  have sn: "extractSnippet ex_pd ?ni = Inr ''for _, item := range items { ... }''"
    by code_simp
  have line: "posLine ?ni = 30" by (simp add: ex_ni_def)
  from loop_write_once [OF h, of ?ni None None None "Some (Ident ''_'')" "Some (Ident ''item'')"
      "Ident ''items''"] sn line
  have r: "detectAt ex_pd (S (RangeStmt ?ni
        (Some (Ident ''_'')) (Some (Ident ''item'')) (Ident ''items'') (Some ex_loop_body))) =
      Inr [\<lparr>Type = ''loop_write'', Line = 30, Score = 3,
            Snippet = ''for _, item := range items { ... }'',
            Description = ''Loop containing write operations (SoTW pattern)''\<rparr>]"
    by (auto simp: SignalLoopWrite_def)
  show ?thesis by (rule conjI [OF h conjI [OF n r]])
qed

section \<open>The walk of DetectPatterns\<close>

lemma appendIfTyped_total: "\<exists>sig. r = Inr sig \<Longrightarrow> \<exists>sigs. appendIfTyped r = Inr sigs"
  by (auto simp: appendIfTyped_def)

lemma analyzeListCall_total: "\<exists>sig. analyzeListCall pd ni args = Inr sig"
proof -
  obtain snippet where sn: "extractSnippet pd ni = Inr snippet"
    using extractSnippet_total by blast
  show ?thesis
  proof (cases "length args < 2")
    case True
    then show ?thesis by (simp add: analyzeListCall_def sn)
  next
    case False
    then have "goSlice args 2 (int (length args)) = Inr (drop 2 args)"
      by (simp add: goSlice_from)
    with False show ?thesis
      by (simp add: analyzeListCall_def sn listOptionFlags_eq)
  qed
qed

lemma analyzeGetCall_total: "\<exists>sig. analyzeGetCall pd ni args = Inr sig"
proof -
  obtain snippet where sn: "extractSnippet pd ni = Inr snippet"
    using extractSnippet_total by blast
  show ?thesis
    by (cases "length args < 3") (simp_all add: analyzeGetCall_def sn goIndex_def)
qed

lemma analyzeWriteCall_total: "\<exists>sig. analyzeWriteCall pd ni method = Inr sig"
proof -
  obtain snippet where sn: "extractSnippet pd ni = Inr snippet"
    using extractSnippet_total by blast
  show ?thesis by (simp add: analyzeWriteCall_def sn)
qed

lemma detectCallPatterns_total: "\<exists>sigs. detectCallPatterns pd ni f args = Inr sigs"
proof (cases f)
  case (SelectorExpr x methodName)
  then show ?thesis
    using appendIfTyped_total [OF analyzeListCall_total, of pd ni args]
      appendIfTyped_total [OF analyzeGetCall_total, of pd ni args]
      appendIfTyped_total [OF analyzeWriteCall_total, of pd ni methodName]
    by auto
qed simp_all

lemma detectAt_total: "\<exists>sigs. detectAt pd n = Inr sigs"
proof (cases "(pd, n)" rule: detectAt.cases)
  case (1 pd' ni f args)
  then show ?thesis using detectCallPatterns_total by simp
next
  case (2 pd' ni init cond body els)
  obtain snippet where "extractSnippet pd ni = Inr snippet"
    using extractSnippet_total by blast
  with 2 show ?thesis by (simp add: detectControlFlowPatterns_def)
next
  case (3 pd' ni init cond post body)
  obtain snippet where "extractSnippet pd ni = Inr snippet"
    using extractSnippet_total by blast
  with 3 show ?thesis by (simp add: detectLoopPatterns_def split: option.splits)
next
  case (4 pd' ni key val x body)
  obtain snippet where "extractSnippet pd ni = Inr snippet"
    using extractSnippet_total by blast
  with 4 show ?thesis by (simp add: detectRangeLoopPatterns_def split: option.splits)
qed simp_all

lemma detectAt_signalsAt: "detectAt pd n = Inr (signalsAt pd n)"
  using detectAt_total [of pd n] by (auto simp: signalsAt_def)

lemma fold_Inspect_append:
  assumes "\<And>c acc. c \<in> set cs \<Longrightarrow> Inspect f c (Inr acc) = Inr (acc @ g c)"
  shows "fold (Inspect f) cs (Inr acc) = Inr (acc @ concat (map g cs))"
  using assms by (induction cs arbitrary: acc) auto

text \<open>
  Each node below the body is visited once, in the order of the walk, and contributes the
  signals found at it: the signals of a function are those of its nodes, concatenated.
\<close>

lemma Inspect_detectVisitor:
  "Inspect (detectVisitor pd) n (Inr acc) =
     Inr (acc @ concat (map (signalsAt pd) (allNodes n)))"
proof (induction n arbitrary: acc rule: allNodes.induct)
  case (1 n)
  have kids: "fold (Inspect (detectVisitor pd)) (children n) (Inr acc') =
      Inr (acc' @ concat (map (\<lambda>c. concat (map (signalsAt pd) (allNodes c))) (children n)))"
    for acc'
    by (rule fold_Inspect_append) (rule 1)
  have flat: "concat (map (signalsAt pd) (concat (map allNodes cs))) =
      concat (map (\<lambda>c. concat (map (signalsAt pd) (allNodes c))) cs)" for cs
    by (induction cs) simp_all
  show ?case
    by (subst Inspect.simps, subst allNodes.simps)
      (simp add: detectVisitor_def detectAt_signalsAt kids flat)
qed

lemma DetectPatterns_walk:
  "DetectPatterns pd fn =
     (case Body fn of
        None \<Rightarrow> Inr []
      | Some body \<Rightarrow> Inr (concat (map (signalsAt pd) (allNodes (S (BlockStmt body))))))"
  by (simp add: DetectPatterns_def Inspect_detectVisitor split: option.splits)

lemma scenario_a:
  "DetectPatterns ex_pd ex_scenario_a =
     Inr [\<lparr>Type = ''get_req_scoped'', Line = 20, Score = - 1,
           Snippet = ''client.Get(ctx, req.NamespacedName, obj)'',
           Description = ''client.Get with req.NamespacedName (primary resource fetch)''\<rparr>,
          \<lparr>Type = ''notfound_ignore'', Line = 21, Score = - 1,
           Snippet = ''if apierrors.IsNotFound(err) { return ctrl.Result{}, nil }'',
           Description = ''Early return on NotFound (ignores deletes)''\<rparr>]
   \<and> map_sum id Classify (DetectPatterns ex_pd ex_scenario_a) = Inr (- 2, ''mostly_edge'')"
  by code_simp

section \<open>The signature matcher: proofs\<close>

lemma goIndex_ok: "i < length xs \<Longrightarrow> goIndex xs i = Inr (xs ! i)"
  by (simp add: goIndex_def)

lemma matchesReconcileSignature_total: "\<exists>b. matchesReconcileSignature fn p = Inr b"
  by (auto simp: matchesReconcileSignature_def goIndex_def split: option.splits)

lemma extractReceiverInfo_eq:
  "Recv fn = Some recv \<Longrightarrow> recv \<noteq> [] \<Longrightarrow>
   extractReceiverInfo fn p =
     Inr (receiverTypeName (derefStar (FieldType (recv ! 0))), PkgPath p)"
  by (simp add: extractReceiverInfo_def goIndex_def)

lemma visitFuncDecl_eq: "visitFuncDecl p file fn results = Inr (results @ picked p file fn)"
proof (cases "Recv fn")
  case None
  then show ?thesis by (simp add: visitFuncDecl_def picked_def)
next
  case (Some recv)
  obtain b where b: "matchesReconcileSignature fn p = Inr b"
    using matchesReconcileSignature_total by blast
  show ?thesis
  proof (cases "recv = []")
    case True
    with Some show ?thesis by (simp add: visitFuncDecl_def picked_def)
  next
    case False
    with Some b show ?thesis
      by (simp add: visitFuncDecl_def picked_def extractReceiverInfo_eq)
  qed
qed

lemma picked_cases:
  "picked p file fn = [] \<or>
   (\<exists>recv. Recv fn = Some recv \<and> recv \<noteq> [] \<and> Name fn = ''Reconcile'' \<and>
      matchesReconcileSignature fn p = Inr True \<and>
      picked p file fn =
        [\<lparr>Pkg = p, File = file, Func = fn,
          ReceiverType = receiverTypeName (derefStar (FieldType (recv ! 0))),
          ReceiverPkg = PkgPath p\<rparr>])"
proof (cases "Recv fn")
  case None
  then show ?thesis by (simp add: visitFuncDecl_def picked_def)
next
  case (Some recv)
  obtain b where b: "matchesReconcileSignature fn p = Inr b"
    using matchesReconcileSignature_total by blast
  show ?thesis
  proof (cases "recv = []")
    case True
    with Some show ?thesis by (simp add: visitFuncDecl_def picked_def)
  next
    case False
    with Some b show ?thesis
      by (cases b) (simp_all add: visitFuncDecl_def picked_def extractReceiverInfo_eq)
  qed
qed

lemma inspectFile_eq:
  "inspectFile p file decls results = Inr (results @ concat (map (pickedDecl p file) decls))"
proof (induction decls arbitrary: results)
  case Nil
  show ?case by simp
next
  case (Cons d decls)
  show ?case
  proof (cases d)
    case (FuncDecl fn)
    then show ?thesis by (simp add: visitFuncDecl_eq Cons)
  next
    case GenDecl
    then show ?thesis by (simp add: Cons)
  qed
qed

lemma rangeSyntax_eq:
  "rangeSyntax p files results = Inr (results @ concat (map (pickedFile p) files))"
  by (induction files arbitrary: results) (simp_all add: inspectFile_eq pickedFile_def)

lemma rangePkgs_eq: "rangePkgs pkgs results = Inr (results @ concat (map pickedPkg pkgs))"
  by (induction pkgs arbitrary: results) (simp_all add: rangeSyntax_eq pickedPkg_def)

lemma FindReconcileFunctions_eq:
  "FindReconcileFunctions pkgs = Inr (concat (map pickedPkg pkgs))"
  by (simp add: FindReconcileFunctions_def rangePkgs_eq)

lemma picked_eq:
  "picked p fl fn =
     (case Recv fn of
        None \<Rightarrow> []
      | Some recv \<Rightarrow>
          if recv \<noteq> [] \<and> Name fn = ''Reconcile'' \<and> matchesReconcileSignature fn p = Inr True
          then [\<lparr>Pkg = p, File = fl, Func = fn,
                 ReceiverType = receiverTypeName (derefStar (FieldType (recv ! 0))),
                 ReceiverPkg = PkgPath p\<rparr>]
          else [])"
proof (cases "Recv fn")
  case None
  then show ?thesis by (simp add: visitFuncDecl_def picked_def)
next
  case (Some recv)
  obtain b where b: "matchesReconcileSignature fn p = Inr b"
    using matchesReconcileSignature_total by blast
  show ?thesis
  proof (cases "recv = []")
    case True
    with Some show ?thesis by (simp add: visitFuncDecl_def picked_def)
  next
    case False
    with Some b show ?thesis
      by (cases b) (simp_all add: visitFuncDecl_def picked_def extractReceiverInfo_eq)
  qed
qed

lemma pickedPkg_candidates:
  "map candidate (pickedPkg q) =
     (if HasSuffix (PkgPath q) ''_test'' then []
      else map candidate (concat (map (pickedFile q) (Syntax q))))"
  by (simp add: pickedPkg_def)

lemma picked_origin:
  "r \<in> set (picked p file fn) \<Longrightarrow> Pkg r = p \<and> File r = file \<and> Func r = fn"
  using picked_cases [of p "file" fn] by auto

lemma pickedDecl_origin:
  "r \<in> set (pickedDecl p file d) \<Longrightarrow> Pkg r = p \<and> File r = file \<and> d = FuncDecl (Func r)"
  by (cases d) (auto dest: picked_origin)

lemma pickedFile_origin:
  assumes "r \<in> set (pickedFile p file)"
  shows "Pkg r = p \<and> File r = file \<and> FuncDecl (Func r) \<in> set (Decls file)
         \<and> \<not> HasSuffix (FileName file) ''_test.go''"
proof -
  from assms have nt: "\<not> HasSuffix (FileName file) ''_test.go''"
    by (auto simp: pickedFile_def split: if_splits)
  with assms obtain d where "d \<in> set (Decls file)" "r \<in> set (pickedDecl p file d)"
    by (auto simp: pickedFile_def)
  with nt show ?thesis by (auto dest: pickedDecl_origin)
qed

lemma pickedPkg_origin:
  assumes "r \<in> set (pickedPkg p)"
  shows "Pkg r = p \<and> File r \<in> set (Syntax p) \<and> FuncDecl (Func r) \<in> set (Decls (File r))
         \<and> \<not> HasSuffix (FileName (File r)) ''_test.go'' \<and> \<not> HasSuffix (PkgPath p) ''_test''"
proof -
  from assms have nt: "\<not> HasSuffix (PkgPath p) ''_test''"
    by (auto simp: pickedPkg_def split: if_splits)
  with assms obtain fl where "fl \<in> set (Syntax p)" "r \<in> set (pickedFile p fl)"
    by (auto simp: pickedPkg_def)
  with nt show ?thesis by (auto dest: pickedFile_origin)
qed

text \<open>
  C10. FindReconcileFunctions returns a list (it does not panic), and every candidate of
  that list comes from a package of the input whose path does not end in _test and from
  a file of that package whose name does not end in _test.go, where it is a declaration.
\<close>

theorem test_code_excluded:
  "\<exists>results. FindReconcileFunctions pkgs = Inr results \<and>
     (\<forall>r \<in> set results.
        \<not> HasSuffix (PkgPath (Pkg r)) ''_test'' \<and>
        \<not> HasSuffix (FileName (File r)) ''_test.go'' \<and>
        Pkg r \<in> set pkgs \<and> File r \<in> set (Syntax (Pkg r)) \<and>
        FuncDecl (Func r) \<in> set (Decls (File r)))"
proof -
  have "\<forall>r \<in> set (concat (map pickedPkg pkgs)).
        \<not> HasSuffix (PkgPath (Pkg r)) ''_test'' \<and>
        \<not> HasSuffix (FileName (File r)) ''_test.go'' \<and>
        Pkg r \<in> set pkgs \<and> File r \<in> set (Syntax (Pkg r)) \<and>
        FuncDecl (Func r) \<in> set (Decls (File r))"
  proof
    fix r
    assume "r \<in> set (concat (map pickedPkg pkgs))"
    then obtain p where p: "p \<in> set pkgs" "r \<in> set (pickedPkg p)" by auto
    from pickedPkg_origin [OF p(2)] p(1)
    show "\<not> HasSuffix (PkgPath (Pkg r)) ''_test'' \<and>
        \<not> HasSuffix (FileName (File r)) ''_test.go'' \<and>
        Pkg r \<in> set pkgs \<and> File r \<in> set (Syntax (Pkg r)) \<and>
        FuncDecl (Func r) \<in> set (Decls (File r))"
      by simp
  qed
  then show ?thesis by (simp add: FindReconcileFunctions_eq)
qed

theorem test_code_excluded_witness:
  "FindReconcileFunctions ex_pkgs = Inr [ex_found]
   \<and> \<not> HasSuffix (PkgPath (Pkg ex_found)) ''_test''
   \<and> \<not> HasSuffix (FileName (File ex_found)) ''_test.go''
   \<and> HasSuffix (PkgPath (ex_pkgs ! 1)) ''_test''
   \<and> HasSuffix (FileName (Syntax (ex_pkgs ! 0) ! 1)) ''_test.go''"
proof -
  have f: "FindReconcileFunctions ex_pkgs = Inr [ex_found]" by code_simp
  from test_code_excluded [of ex_pkgs] f
  have r: "\<not> HasSuffix (PkgPath (Pkg ex_found)) ''_test'' \<and>
           \<not> HasSuffix (FileName (File ex_found)) ''_test.go''"
    by auto
  have t1: "HasSuffix (PkgPath (ex_pkgs ! 1)) ''_test''" by code_simp
  have t2: "HasSuffix (FileName (Syntax (ex_pkgs ! 0) ! 1)) ''_test.go''" by code_simp
  show ?thesis using f r t1 t2 by (intro conjI) blast+
qed

subsection \<open>Fewer than two parameters or results\<close>

lemma length_le_NumFields: "length flds \<le> NumFields (Some flds)"
  unfolding NumFields_def by (induction flds) (auto simp: neq_Nil_conv)

lemma matches_short_signature:
  assumes "NumFields (Params fn) < 2 \<or> NumFields (Results fn) < 2"
  shows "matchesReconcileSignature fn p = Inr False"
proof (cases "Params fn")
  case None
  then show ?thesis by (simp add: matchesReconcileSignature_def)
next
  case (Some params)
  note ps = this
  show ?thesis
  proof (cases "length params < 2")
    case True
    with ps show ?thesis by (simp add: matchesReconcileSignature_def)
  next
    case False
    with ps have "\<not> NumFields (Params fn) < 2"
      using length_le_NumFields [of params] by simp
    with assms have rs: "NumFields (Results fn) < 2" by simp
    show ?thesis
    proof (cases "Results fn")
      case None
      with ps False show ?thesis by (simp add: matchesReconcileSignature_def)
    next
      case (Some results)
      with rs have "length results < 2"
        using length_le_NumFields [of results] by simp
      with ps False Some show ?thesis by (simp add: matchesReconcileSignature_def)
    qed
  qed
qed

lemma picked_short_signature:
  assumes "NumFields (Params fn) < 2 \<or> NumFields (Results fn) < 2"
  shows "picked p file fn = []"
  using picked_cases [of p "file" fn] matches_short_signature [OF assms, of p] by auto

lemma typeNameContains_resolver:
  "TypesInfo p = TypesInfo p' \<Longrightarrow> typeNameContains t p m = typeNameContains t p' m"
  by (cases t) simp_all

lemma isErrorType_resolver: "isErrorType t p = isErrorType t p'"
  by (cases t) simp_all

lemma matches_resolver:
  assumes "TypesInfo p = TypesInfo p'"
  shows "matchesReconcileSignature fn p = matchesReconcileSignature fn p'"
proof -
  have c: "isContextType t p = isContextType t p'" for t
    by (simp add: isContextType_def typeNameContains_resolver [OF assms])
  have q: "isRequestType t p = isRequestType t p'" for t
    by (simp add: isRequestType_def typeNameContains_resolver [OF assms])
  have r: "isResultType t p = isResultType t p'" for t
    by (simp add: isResultType_def typeNameContains_resolver [OF assms])
  show ?thesis
    unfolding matchesReconcileSignature_def
    by (simp only: c q r isErrorType_resolver [of _ p p'])
qed

lemma candidate_picked:
  assumes "PkgPath p = PkgPath p'" and "TypesInfo p = TypesInfo p'"
    and "FileName fl = FileName fl'"
  shows "map candidate (picked p fl fn) = map candidate (picked p' fl' fn)"
proof -
  have m: "matchesReconcileSignature fn p = matchesReconcileSignature fn p'"
    by (rule matches_resolver [OF assms(2)])
  show ?thesis
    using m assms(1,3) by (simp add: picked_eq candidate_def split: option.splits)
qed

lemma candidate_decls:
  assumes "PkgPath p = PkgPath p'" and "TypesInfo p = TypesInfo p'"
    and "FileName fl = FileName fl'"
  shows "map candidate (concat (map (pickedDecl p fl) decls)) =
         map candidate (concat (map (pickedDecl p' fl') decls))"
proof (induction decls)
  case Nil
  show ?case by simp
next
  case (Cons d decls)
  have "map candidate (pickedDecl p fl d) = map candidate (pickedDecl p' fl' d)"
    by (cases d) (simp_all add: candidate_picked [OF assms])
  with Cons show ?case by simp
qed

lemma candidate_pickedFile:
  assumes "PkgPath p = PkgPath p'" and "TypesInfo p = TypesInfo p'"
  shows "map candidate (pickedFile p fl) = map candidate (pickedFile p' fl)"
  using candidate_decls [OF assms refl, of fl "Decls fl"] by (simp add: pickedFile_def)

lemma candidate_files:
  assumes "PkgPath p = PkgPath p'" and "TypesInfo p = TypesInfo p'"
  shows "map candidate (concat (map (pickedFile p) files)) =
         map candidate (concat (map (pickedFile p') files))"
  by (induction files) (simp_all add: candidate_pickedFile [OF assms])

lemma candidate_file_without:
  assumes "NumFields (Params fn) < 2 \<or> NumFields (Results fn) < 2"
  shows "map candidate (pickedFile q (fl\<lparr>Decls := ds1 @ FuncDecl fn # ds2\<rparr>)) =
         map candidate (pickedFile q (fl\<lparr>Decls := ds1 @ ds2\<rparr>))"
proof -
  let ?fw = "fl\<lparr>Decls := ds1 @ FuncDecl fn # ds2\<rparr>"
  let ?fo = "fl\<lparr>Decls := ds1 @ ds2\<rparr>"
  have names: "FileName ?fw = FileName ?fo" by simp
  have same: "map candidate (concat (map (pickedDecl q ?fw) decls)) =
        map candidate (concat (map (pickedDecl q ?fo) decls))" for decls
    by (rule candidate_decls [OF refl refl names])
  have "map candidate (concat (map (pickedDecl q ?fw) (ds1 @ FuncDecl fn # ds2))) =
        map candidate (concat (map (pickedDecl q ?fw) ds1)) @
        map candidate (concat (map (pickedDecl q ?fw) ds2))"
    by (simp add: picked_short_signature [OF assms])
  also have "\<dots> = map candidate (concat (map (pickedDecl q ?fo) ds1)) @
        map candidate (concat (map (pickedDecl q ?fo) ds2))"
    by (simp only: same)
  also have "\<dots> = map candidate (concat (map (pickedDecl q ?fo) (ds1 @ ds2)))"
    by simp
  finally show ?thesis by (simp add: pickedFile_def)
qed

text \<open>
  C8. A function declaration that declares fewer than two parameters or fewer than two
  results does not match the signature (the answer is false, not a panic), the closure
  leaves the list of results as it is, and the candidates that FindReconcileFunctions
  selects in a tree that has the declaration are those it selects in the same tree
  without it; the declaration is not one of them.
\<close>

theorem short_signature_not_selected:
  assumes "NumFields (Params fn) < 2 \<or> NumFields (Results fn) < 2"
  shows "matchesReconcileSignature fn p = Inr False
     \<and> visitFuncDecl p fl fn results = Inr results
     \<and> (\<exists>with without.
          FindReconcileFunctions
            (pkgsBefore @ p\<lparr>Syntax := filesBefore @ fl\<lparr>Decls := declsBefore @ FuncDecl fn # declsAfter\<rparr> # filesAfter\<rparr> # pkgsAfter)
            = Inr with
        \<and> FindReconcileFunctions
            (pkgsBefore @ p\<lparr>Syntax := filesBefore @ fl\<lparr>Decls := declsBefore @ declsAfter\<rparr> # filesAfter\<rparr> # pkgsAfter)
            = Inr without
        \<and> map candidate with = map candidate without
        \<and> (\<forall>r \<in> set with. Func r \<noteq> fn))"
proof -
  let ?fw = "fl\<lparr>Decls := declsBefore @ FuncDecl fn # declsAfter\<rparr>"
  let ?fo = "fl\<lparr>Decls := declsBefore @ declsAfter\<rparr>"
  let ?pw = "p\<lparr>Syntax := filesBefore @ ?fw # filesAfter\<rparr>"
  let ?po = "p\<lparr>Syntax := filesBefore @ ?fo # filesAfter\<rparr>"
  have m: "matchesReconcileSignature fn p = Inr False"
    by (rule matches_short_signature [OF assms])
  have v: "visitFuncDecl p fl fn results = Inr results"
    by (simp add: visitFuncDecl_eq picked_short_signature [OF assms])
  have sw: "Syntax ?pw = filesBefore @ ?fw # filesAfter" and so: "Syntax ?po = filesBefore @ ?fo # filesAfter"
    by simp_all
  have tw: "PkgPath ?pw = PkgPath p" and to: "PkgPath ?po = PkgPath p"
    by simp_all
  have fw: "map candidate (concat (map (pickedFile ?pw) (Syntax ?pw))) =
            map candidate (concat (map (pickedFile p) (filesBefore @ ?fw # filesAfter)))"
    unfolding sw by (rule candidate_files) simp_all
  have fo: "map candidate (concat (map (pickedFile ?po) (Syntax ?po))) =
            map candidate (concat (map (pickedFile p) (filesBefore @ ?fo # filesAfter)))"
    unfolding so by (rule candidate_files) simp_all
  have c: "map candidate (concat (map (pickedFile p) (filesBefore @ ?fw # filesAfter))) =
           map candidate (concat (map (pickedFile p) (filesBefore @ ?fo # filesAfter)))"
    by (simp add: candidate_file_without [OF assms])
  have pk: "map candidate (pickedPkg ?pw) = map candidate (pickedPkg ?po)"
    by (simp only: pickedPkg_candidates fw fo c tw to)
  have same: "map candidate (concat (map pickedPkg (pkgsBefore @ ?pw # pkgsAfter))) =
              map candidate (concat (map pickedPkg (pkgsBefore @ ?po # pkgsAfter)))"
    by (simp add: pk)
  have never: "\<forall>r \<in> set (concat (map pickedPkg pkgs)). Func r \<noteq> fn" for pkgs
  proof
    fix r
    assume "r \<in> set (concat (map pickedPkg pkgs))"
    then obtain q f d where d: "r \<in> set (pickedDecl q f d)"
      by (auto simp: pickedPkg_def pickedFile_def split: if_splits)
    show "Func r \<noteq> fn"
    proof
      assume eq: "Func r = fn"
      from d have "d = FuncDecl (Func r)" by (auto dest: pickedDecl_origin)
      with d eq have "r \<in> set (picked q f fn)" by simp
      then show False by (simp add: picked_short_signature [OF assms])
    qed
  qed
  have w: "FindReconcileFunctions (pkgsBefore @ ?pw # pkgsAfter) =
      Inr (concat (map pickedPkg (pkgsBefore @ ?pw # pkgsAfter)))"
    by (rule FindReconcileFunctions_eq)
  have o: "FindReconcileFunctions (pkgsBefore @ ?po # pkgsAfter) =
      Inr (concat (map pickedPkg (pkgsBefore @ ?po # pkgsAfter)))"
    by (rule FindReconcileFunctions_eq)
  from w o same never [of "pkgsBefore @ ?pw # pkgsAfter"]
  have "\<exists>with without.
          FindReconcileFunctions (pkgsBefore @ ?pw # pkgsAfter) = Inr with
        \<and> FindReconcileFunctions (pkgsBefore @ ?po # pkgsAfter) = Inr without
        \<and> map candidate with = map candidate without
        \<and> (\<forall>r \<in> set with. Func r \<noteq> fn)"
    by blast
  with m v show ?thesis by (intro conjI)
qed

theorem short_signature_not_selected_witness:
  "(NumFields (Params ex_short) < 2 \<or> NumFields (Results ex_short) < 2)
   \<and> matchesReconcileSignature ex_short ex_pkg = Inr False
   \<and> FindReconcileFunctions
        [ex_pkg\<lparr>Syntax := [ex_file\<lparr>Decls := [GenDecl, FuncDecl ex_short, FuncDecl ex_reconcile]\<rparr>]\<rparr>] =
      Inr [\<lparr>Pkg = ex_pkg\<lparr>Syntax := [ex_file\<lparr>Decls := [GenDecl, FuncDecl ex_short, FuncDecl ex_reconcile]\<rparr>]\<rparr>,
            File = ex_file\<lparr>Decls := [GenDecl, FuncDecl ex_short, FuncDecl ex_reconcile]\<rparr>,
            Func = ex_reconcile, ReceiverType = ''R'', ReceiverPkg = ''example.com/ctrl''\<rparr>]
   \<and> FindReconcileFunctions
        [ex_pkg\<lparr>Syntax := [ex_file\<lparr>Decls := [GenDecl, FuncDecl ex_reconcile]\<rparr>]\<rparr>] =
      Inr [\<lparr>Pkg = ex_pkg\<lparr>Syntax := [ex_file\<lparr>Decls := [GenDecl, FuncDecl ex_reconcile]\<rparr>]\<rparr>,
            File = ex_file\<lparr>Decls := [GenDecl, FuncDecl ex_reconcile]\<rparr>,
            Func = ex_reconcile, ReceiverType = ''R'', ReceiverPkg = ''example.com/ctrl''\<rparr>]"
proof -
  have h: "NumFields (Params ex_short) < 2 \<or> NumFields (Results ex_short) < 2"
    by (simp add: ex_short_def NumFields_def)
  from short_signature_not_selected [OF h, where p = ex_pkg and fl = ex_file and results = "[]"
      and pkgsBefore = "[]" and filesBefore = "[]" and declsBefore = "[GenDecl]"
      and declsAfter = "[FuncDecl ex_reconcile]" and filesAfter = "[]" and pkgsAfter = "[]"]
  have m: "matchesReconcileSignature ex_short ex_pkg = Inr False" by blast
  have w: "FindReconcileFunctions
        [ex_pkg\<lparr>Syntax := [ex_file\<lparr>Decls := [GenDecl, FuncDecl ex_short, FuncDecl ex_reconcile]\<rparr>]\<rparr>] =
      Inr [\<lparr>Pkg = ex_pkg\<lparr>Syntax := [ex_file\<lparr>Decls := [GenDecl, FuncDecl ex_short, FuncDecl ex_reconcile]\<rparr>]\<rparr>,
            File = ex_file\<lparr>Decls := [GenDecl, FuncDecl ex_short, FuncDecl ex_reconcile]\<rparr>,
            Func = ex_reconcile, ReceiverType = ''R'', ReceiverPkg = ''example.com/ctrl''\<rparr>]"
    by code_simp
  have o: "FindReconcileFunctions
        [ex_pkg\<lparr>Syntax := [ex_file\<lparr>Decls := [GenDecl, FuncDecl ex_reconcile]\<rparr>]\<rparr>] =
      Inr [\<lparr>Pkg = ex_pkg\<lparr>Syntax := [ex_file\<lparr>Decls := [GenDecl, FuncDecl ex_reconcile]\<rparr>]\<rparr>,
            File = ex_file\<lparr>Decls := [GenDecl, FuncDecl ex_reconcile]\<rparr>,
            Func = ex_reconcile, ReceiverType = ''R'', ReceiverPkg = ''example.com/ctrl''\<rparr>]"
    by code_simp
  show ?thesis by (rule conjI [OF h conjI [OF m conjI [OF w o]]])
qed

subsection \<open>Capability markers\<close>

text \<open>
  C7. The resolver is not a fallback for a syntactic name that lacks the marker. When the
  type expression is an identifier or a selector, the check is the substring test on that
  syntactic name and the resolver is not consulted, also when the name lacks the marker.
  Only for a type expression of another shape does the check use the resolved-type
  description, when the package has a resolver with a type for the expression; with no
  resolver the check is the syntactic test alone (false for those shapes). The check is
  no more permissive than the specification's wording and agrees with it on every type
  expression that has no syntactic name.
\<close>

theorem typeNameContains_fallback:
  "typeNameContains t p marker =
     (case syntacticName t of
        Some name \<Rightarrow> Contains name marker
      | None \<Rightarrow>
          (case TypesInfo p of
             None \<Rightarrow> False
           | Some info \<Rightarrow>
               (case map_of info t of
                  None \<Rightarrow> False
                | Some description \<Rightarrow> Contains description marker)))
   \<and> (typeNameContains t p marker \<longrightarrow> typeNameContains_spec t p marker)
   \<and> (syntacticName t = None \<longrightarrow>
        typeNameContains t p marker = typeNameContains_spec t p marker)
   \<and> (TypesInfo p = None \<longrightarrow>
        typeNameContains t p marker =
          (case syntacticName t of None \<Rightarrow> False | Some name \<Rightarrow> Contains name marker))"
  by (cases t) (auto simp: typeNameContains_spec_def split: option.splits)

text \<open>
  The identifier \<open>Ctx\<close> lacks the marker \<open>Context\<close>, the resolver describes its type as
  \<open>context.Context\<close>, and the check answers false where the specification's wording
  answers true.
\<close>

theorem typeNameContains_no_fallback_counterexample:
  "syntacticName (Ident ''Ctx'') = Some ''Ctx''
   \<and> \<not> Contains ''Ctx'' ''Context''
   \<and> map_of (the (TypesInfo ex_pkg)) (Ident ''Ctx'') = Some ''context.Context''
   \<and> Contains ''context.Context'' ''Context''
   \<and> typeNameContains_spec (Ident ''Ctx'') ex_pkg ''Context''
   \<and> \<not> typeNameContains (Ident ''Ctx'') ex_pkg ''Context''"
  by code_simp

theorem typeNameContains_fallback_witness:
  "syntacticName (StarExpr (SelectorExpr (Ident ''ctrl'') ''Request'')) = None
   \<and> typeNameContains (StarExpr (SelectorExpr (Ident ''ctrl'') ''Request'')) ex_pkg ''Request''
   \<and> typeNameContains_spec (StarExpr (SelectorExpr (Ident ''ctrl'') ''Request'')) ex_pkg ''Request''
   \<and> TypesInfo (ex_pkg\<lparr>TypesInfo := None\<rparr>) = None
   \<and> \<not> typeNameContains (StarExpr (SelectorExpr (Ident ''ctrl'') ''Request''))
         (ex_pkg\<lparr>TypesInfo := None\<rparr>) ''Request''"
proof -
  let ?t = "StarExpr (SelectorExpr (Ident ''ctrl'') ''Request'')"
  have h1: "syntacticName ?t = None" by simp
  have h2: "typeNameContains ?t ex_pkg ''Request''" by code_simp
  have h3: "TypesInfo (ex_pkg\<lparr>TypesInfo := None\<rparr>) = None" by simp
  from typeNameContains_fallback [of ?t ex_pkg "''Request''"] h1 h2
  have r1: "typeNameContains_spec ?t ex_pkg ''Request''" by blast
  from typeNameContains_fallback [of ?t "ex_pkg\<lparr>TypesInfo := None\<rparr>" "''Request''"] h1 h3
  have r2: "\<not> typeNameContains ?t (ex_pkg\<lparr>TypesInfo := None\<rparr>) ''Request''" by simp
  show ?thesis by (rule conjI [OF h1 conjI [OF h2 conjI [OF r1 conjI [OF h3 r2]]]])
qed

section \<open>The snippet extractor: proofs\<close>

subsection \<open>White space runes\<close>

lemma HasPrefix_iff: "HasPrefix s p = (\<exists>zs. s = p @ zs)"
proof
  assume "HasPrefix s p"
  then have "s = p @ drop (length p) s"
    unfolding HasPrefix_def by (metis append_take_drop_id)
  then show "\<exists>zs. s = p @ zs" ..
next
  assume "\<exists>zs. s = p @ zs"
  then show "HasPrefix s p" by (auto simp: HasPrefix_def)
qed

lemma whiteSpace_nonempty: "p \<in> set whiteSpace \<Longrightarrow> p \<noteq> []"
  by (auto simp: whiteSpace_def)

lemma whiteSpace_tail: "p \<in> set whiteSpace \<Longrightarrow> c \<in> set (tl p) \<Longrightarrow> tailByte c"
  by (auto simp: whiteSpace_def tailByte_def)

lemma whiteSpace_head: "p \<in> set whiteSpace \<Longrightarrow> \<not> tailByte (hd p)"
  by (auto simp: whiteSpace_def tailByte_def)

lemma whiteSpace_multibyte:
  "p \<in> set whiteSpace \<Longrightarrow> 1 < length p \<Longrightarrow> c \<in> set p \<Longrightarrow> 128 \<le> (of_char c :: nat)"
  by (auto simp: whiteSpace_def)

lemma whiteSpace_single:
  "[c] \<in> set whiteSpace \<Longrightarrow> (of_char c :: nat) < 128 \<and> c \<noteq> CHR ''.''"
  by (auto simp: whiteSpace_def)

lemma whiteSpace_width: "p \<in> set whiteSpace \<Longrightarrow> spaceWidth p = length p"
  by (auto simp: whiteSpace_def) (simp_all add: spaceWidth_def whiteSpace_def HasPrefix_def)

lemma HasSuffix_iff: "HasSuffix s p = (\<exists>zs. s = zs @ p)"
proof
  assume "HasSuffix s p"
  then have "s = take (length s - length p) s @ p"
    unfolding HasSuffix_def by (metis append_take_drop_id)
  then show "\<exists>zs. s = zs @ p" ..
next
  assume "\<exists>zs. s = zs @ p"
  then show "HasSuffix s p" by (auto simp: HasSuffix_def)
qed

lemma spaceWidth_zero_iff: "(spaceWidth s = 0) = (\<forall>p \<in> set whiteSpace. \<not> HasPrefix s p)"
proof (cases "find (HasPrefix s) whiteSpace")
  case None
  then have "\<forall>p \<in> set whiteSpace. \<not> HasPrefix s p" by (simp add: find_None_iff)
  with None show ?thesis by (simp add: spaceWidth_def)
next
  case (Some p)
  then have "p \<in> set whiteSpace" "HasPrefix s p"
    by (auto simp: find_Some_iff)
  with Some show ?thesis
    using whiteSpace_nonempty [of p] by (auto simp: spaceWidth_def)
qed

lemma lastSpaceWidth_zero_iff:
  "(lastSpaceWidth s = 0) = (\<forall>p \<in> set whiteSpace. \<not> HasSuffix s p)"
proof (cases "find (HasSuffix s) whiteSpace")
  case None
  then have "\<forall>p \<in> set whiteSpace. \<not> HasSuffix s p" by (simp add: find_None_iff)
  with None show ?thesis by (simp add: lastSpaceWidth_def)
next
  case (Some p)
  then have "p \<in> set whiteSpace" "HasSuffix s p"
    by (auto simp: find_Some_iff)
  with Some show ?thesis
    using whiteSpace_nonempty [of p] by (auto simp: lastSpaceWidth_def)
qed

lemma spaceWidth_pattern:
  assumes "spaceWidth s \<noteq> 0"
  shows "\<exists>p \<in> set whiteSpace. HasPrefix s p \<and> spaceWidth s = length p"
proof (cases "find (HasPrefix s) whiteSpace")
  case None
  with assms show ?thesis by (simp add: spaceWidth_def)
next
  case (Some p)
  then have "p \<in> set whiteSpace" "HasPrefix s p"
    by (auto simp: find_Some_iff)
  with Some show ?thesis by (auto simp: spaceWidth_def)
qed

lemma lastSpaceWidth_pattern:
  assumes "lastSpaceWidth s \<noteq> 0"
  shows "\<exists>p \<in> set whiteSpace. HasSuffix s p \<and> lastSpaceWidth s = length p"
proof (cases "find (HasSuffix s) whiteSpace")
  case None
  with assms show ?thesis by (simp add: lastSpaceWidth_def)
next
  case (Some p)
  then have "p \<in> set whiteSpace" "HasSuffix s p"
    by (auto simp: find_Some_iff)
  with Some show ?thesis by (auto simp: lastSpaceWidth_def)
qed

lemma spaceWidth_head:
  assumes "spaceWidth (c # cs) \<noteq> 0"
  shows "\<not> tailByte c"
proof -
  from spaceWidth_pattern [OF assms] obtain p zs
    where p: "p \<in> set whiteSpace" "c # cs = p @ zs"
    by (auto simp: HasPrefix_iff)
  with whiteSpace_nonempty [of p] have "c = hd p" by (cases p) auto
  with whiteSpace_head [OF p(1)] show ?thesis by simp
qed

text \<open>
  Appending text that does not begin with a continuation byte to a non-empty string does
  not change whether a white space rune begins the string.
\<close>

lemma HasPrefix_append:
  assumes "p \<in> set whiteSpace" and "x \<noteq> []" and "y = [] \<or> \<not> tailByte (hd y)"
  shows "HasPrefix (x @ y) p = HasPrefix x p"
proof
  assume "HasPrefix x p"
  then show "HasPrefix (x @ y) p" by (auto simp: HasPrefix_iff)
next
  assume "HasPrefix (x @ y) p"
  then obtain zs where "x @ y = p @ zs" by (auto simp: HasPrefix_iff)
  then obtain us where us: "x = p @ us \<or> (x @ us = p \<and> y = us @ zs)"
    by (auto simp: append_eq_append_conv2)
  show "HasPrefix x p"
  proof (cases "x = p @ us \<or> us = []")
    case True
    with us show ?thesis by (auto simp: HasPrefix_iff)
  next
    case False
    with us have 2: "x @ us = p" "y = us @ zs" "us \<noteq> []" by auto
    from assms(2) obtain a x' where x: "x = a # x'" by (cases x) auto
    with 2 have "tl p = x' @ us" by auto
    with 2(3) have "hd us \<in> set (tl p)" by (cases us) auto
    then have "tailByte (hd us)" by (rule whiteSpace_tail [OF assms(1)])
    moreover from 2 have "y \<noteq> []" "hd y = hd us" by auto
    ultimately show ?thesis using assms(3) by simp
  qed
qed

lemma spaceWidth_append:
  assumes "x \<noteq> []" and "y = [] \<or> \<not> tailByte (hd y)"
  shows "spaceWidth (x @ y) = spaceWidth x"
proof -
  have "find (HasPrefix (x @ y)) whiteSpace = find (HasPrefix x) whiteSpace"
    by (rule find_cong) (simp_all add: HasPrefix_append [OF _ assms])
  then show ?thesis by (simp add: spaceWidth_def)
qed

lemma spaceWidth_take: "spaceWidth s = 0 \<Longrightarrow> spaceWidth (take k s) = 0"
proof -
  assume z: "spaceWidth s = 0"
  have "\<not> HasPrefix (take k s) p" if "p \<in> set whiteSpace" for p
  proof
    assume "HasPrefix (take k s) p"
    then obtain zs where "take k s = p @ zs" by (auto simp: HasPrefix_iff)
    then have "s = p @ (zs @ drop k s)" by (metis append_assoc append_take_drop_id)
    then have "HasPrefix s p" unfolding HasPrefix_iff by blast
    with z that show False by (simp add: spaceWidth_zero_iff)
  qed
  then show ?thesis by (simp add: spaceWidth_zero_iff)
qed

lemma spaceWidth_space: "spaceWidth (CHR '' '' # t) = 1"
  by (simp add: spaceWidth_def whiteSpace_def HasPrefix_def)

lemma spaceWidth_Nil: "spaceWidth [] = 0"
  by (simp add: spaceWidth_def whiteSpace_def HasPrefix_def)

lemma noSpace_iff: "noSpace w = (\<forall>i < length w. spaceWidth (drop i w) = 0)"
proof (induction w)
  case Nil
  show ?case by simp
next
  case (Cons c cs)
  show ?case
  proof
    assume a: "noSpace (c # cs)"
    show "\<forall>i < length (c # cs). spaceWidth (drop i (c # cs)) = 0"
    proof (intro allI impI)
      fix i assume "i < length (c # cs)"
      with a Cons show "spaceWidth (drop i (c # cs)) = 0" by (cases i) auto
    qed
  next
    assume a: "\<forall>i < length (c # cs). spaceWidth (drop i (c # cs)) = 0"
    then have "spaceWidth (drop 0 (c # cs)) = 0" by blast
    moreover have "\<forall>i < length cs. spaceWidth (drop i cs) = 0"
    proof (intro allI impI)
      fix i assume "i < length cs"
      with a have "spaceWidth (drop (Suc i) (c # cs)) = 0" by auto
      then show "spaceWidth (drop i cs) = 0" by simp
    qed
    ultimately show "noSpace (c # cs)" using Cons by simp
  qed
qed

subsection \<open>Fields\<close>

lemma fieldsFrom_words:
  assumes "\<forall>i < length cur. spaceWidth (drop i cur @ s) = 0"
    and "w \<in> set (fieldsFrom cur s)"
  shows "w \<noteq> [] \<and> noSpace w"
  using assms
proof (induction cur s rule: fieldsFrom.induct)
  case (1 cur)
  then show ?case by (auto simp: noSpace_iff split: if_splits)
next
  case (2 cur c cs)
  show ?case
  proof (cases "spaceWidth (c # cs) = 0")
    case True
    have "\<forall>i < length (cur @ [c]). spaceWidth (drop i (cur @ [c]) @ cs) = 0"
    proof (intro allI impI)
      fix i assume i: "i < length (cur @ [c])"
      show "spaceWidth (drop i (cur @ [c]) @ cs) = 0"
      proof (cases "i < length cur")
        case True
        with "2.prems"(1) show ?thesis by simp
      next
        case False
        with i have "i = length cur" by simp
        with \<open>spaceWidth (c # cs) = 0\<close> show ?thesis by simp
      qed
    qed
    moreover from True "2.prems"(2) have "w \<in> set (fieldsFrom (cur @ [c]) cs)" by simp
    ultimately show ?thesis using "2.IH"(1) [OF True] by blast
  next
    case False
    then have nt: "\<not> tailByte c" by (rule spaceWidth_head)
    from False "2.prems"(2)
    have "(cur \<noteq> [] \<and> w = cur) \<or> w \<in> set (fieldsFrom [] (drop (spaceWidth (c # cs)) (c # cs)))"
      by (auto split: if_splits)
    then show ?thesis
    proof
      assume w: "cur \<noteq> [] \<and> w = cur"
      have "\<forall>i < length cur. spaceWidth (drop i cur) = 0"
      proof (intro allI impI)
        fix i assume i: "i < length cur"
        then have "drop i cur \<noteq> []" by simp
        then have "spaceWidth (drop i cur @ c # cs) = spaceWidth (drop i cur)"
          using nt by (intro spaceWidth_append) simp_all
        with "2.prems"(1) i show "spaceWidth (drop i cur) = 0" by simp
      qed
      with w show ?thesis by (simp add: noSpace_iff)
    next
      assume "w \<in> set (fieldsFrom [] (drop (spaceWidth (c # cs)) (c # cs)))"
      then show ?thesis using "2.IH"(2) [OF False] by simp
    qed
  qed
qed

lemma Fields_words: "w \<in> set (Fields s) \<Longrightarrow> w \<noteq> [] \<and> noSpace w"
  unfolding Fields_def by (rule fieldsFrom_words) simp_all

lemma fieldsFrom_word:
  assumes "noSpace w" and "rest = [] \<or> \<not> tailByte (hd rest)"
  shows "fieldsFrom cur (w @ rest) = fieldsFrom (cur @ w) rest"
  using assms(1)
proof (induction w arbitrary: cur)
  case Nil
  show ?case by simp
next
  case (Cons c w)
  have "spaceWidth ((c # w) @ rest) = spaceWidth (c # w)"
    using assms(2) by (intro spaceWidth_append) simp_all
  with Cons.prems have "spaceWidth (c # w @ rest) = 0" by simp
  then have "fieldsFrom cur ((c # w) @ rest) = fieldsFrom (cur @ [c]) (w @ rest)" by simp
  also have "\<dots> = fieldsFrom ((cur @ [c]) @ w) rest"
    using Cons.prems by (intro Cons.IH) simp
  finally show ?case by simp
qed

lemma not_tailByte_space: "\<not> tailByte (CHR '' '')"
  by (simp add: tailByte_def)

lemma Fields_Join:
  assumes "\<forall>w \<in> set ws. w \<noteq> [] \<and> noSpace w"
  shows "Fields (Join ws '' '') = ws"
  using assms
proof (induction ws "'' ''" rule: Join.induct)
  case 1
  show ?case by (simp add: Fields_def)
next
  case (2 a)
  then have "fieldsFrom [] (a @ []) = fieldsFrom ([] @ a) []"
    by (intro fieldsFrom_word) simp_all
  with 2 show ?case by (simp add: Fields_def)
next
  case (3 a b rest)
  have "fieldsFrom [] (a @ '' '' @ Join (b # rest) '' '') =
        fieldsFrom ([] @ a) ('' '' @ Join (b # rest) '' '')"
    using 3(2) by (intro fieldsFrom_word) (simp_all add: not_tailByte_space)
  also have "\<dots> = a # fieldsFrom [] (Join (b # rest) '' '')"
    using 3(2) by (simp add: spaceWidth_space)
  also have "\<dots> = a # b # rest"
    using 3 by (simp add: Fields_def)
  finally show ?case by (simp add: Fields_def)
qed

lemma Fields_trimLeft: "Fields (trimLeft s) = Fields s"
proof (induction s rule: trimLeft.induct)
  case (1 s)
  show ?case
  proof (cases "spaceWidth s = 0")
    case True
    then show ?thesis by (subst trimLeft.simps) simp
  next
    case False
    then obtain c cs where s: "s = c # cs" by (cases s) (auto simp: spaceWidth_Nil)
    have "Fields (trimLeft s) = Fields (trimLeft (drop (spaceWidth s) s))"
      using False by (subst trimLeft.simps) simp
    also have "\<dots> = Fields (drop (spaceWidth s) s)" by (rule 1 [OF False])
    also have "\<dots> = Fields s" using False unfolding s by (simp add: Fields_def)
    finally show ?thesis .
  qed
qed

lemma fieldsFrom_append_space:
  assumes "p \<in> set whiteSpace"
  shows "fieldsFrom cur (s @ p) = fieldsFrom cur s"
proof (induction cur s rule: fieldsFrom.induct)
  case (1 cur)
  from whiteSpace_nonempty [OF assms] obtain a p' where p: "p = a # p'" by (cases p) auto
  have "spaceWidth p = length p" by (rule whiteSpace_width [OF assms])
  then show ?case unfolding p by simp
next
  case (2 cur c cs)
  have nt: "\<not> tailByte (hd p)" by (rule whiteSpace_head [OF assms])
  have w: "spaceWidth ((c # cs) @ p) = spaceWidth (c # cs)"
    using nt by (intro spaceWidth_append) simp_all
  show ?case
  proof (cases "spaceWidth (c # cs) = 0")
    case True
    with w 2(1) show ?thesis by simp
  next
    case False
    have d: "drop n (xs @ ys) = drop n xs @ ys" if "n \<le> length xs"
      for n and xs ys :: string
      using that by simp
    have "spaceWidth (c # cs) \<le> length (c # cs)" by (rule spaceWidth_le)
    then have "drop (spaceWidth (c # cs)) ((c # cs) @ p) = drop (spaceWidth (c # cs)) (c # cs) @ p"
      by (rule d)
    with w False 2(2) show ?thesis by simp
  qed
qed

lemma Fields_trimRight: "Fields (trimRight s) = Fields s"
proof (induction s rule: trimRight.induct)
  case (1 s)
  show ?case
  proof (cases "lastSpaceWidth s = 0")
    case True
    then show ?thesis by (subst trimRight.simps) simp
  next
    case False
    from lastSpaceWidth_pattern [OF False] obtain p zs
      where p: "p \<in> set whiteSpace" "s = zs @ p" "lastSpaceWidth s = length p"
      by (auto simp: HasSuffix_iff)
    then have t: "take (length s - lastSpaceWidth s) s = zs" by simp
    have "Fields (trimRight s) = Fields (trimRight zs)"
      using False t by (subst trimRight.simps) simp
    also have "\<dots> = Fields zs" using 1 [OF False] t by simp
    also have "\<dots> = Fields s" unfolding p(2) Fields_def
      by (rule fieldsFrom_append_space [OF p(1), symmetric])
    finally show ?thesis .
  qed
qed

lemma Fields_TrimSpace: "Fields (TrimSpace s) = Fields s"
  by (simp add: TrimSpace_def Fields_trimRight Fields_trimLeft)

subsection \<open>The normal form of a snippet\<close>

lemma Join_Cons:
  "Join (a # rest) sep = a @ (if rest = [] then [] else sep @ Join rest sep)"
  by (cases rest) simp_all

lemma word_spaceWidth: "w \<noteq> [] \<Longrightarrow> noSpace w \<Longrightarrow> spaceWidth w = 0"
  by (cases w) simp_all

lemma spaceWidth_Join:
  assumes "\<forall>w \<in> set ws. w \<noteq> [] \<and> noSpace w"
  shows "spaceWidth (Join ws '' '') = 0"
proof (cases ws)
  case Nil
  then show ?thesis by (simp add: spaceWidth_Nil)
next
  case (Cons a rest)
  with assms have a: "a \<noteq> []" "noSpace a" by simp_all
  have "spaceWidth (a @ (if rest = [] then [] else '' '' @ Join rest '' '')) = spaceWidth a"
    using a(1) by (intro spaceWidth_append) (simp_all add: not_tailByte_space)
  with a Cons show ?thesis by (simp add: Join_Cons word_spaceWidth)
qed

lemma collapsed_word:
  assumes "noSpace w" and "collapsed rest" and "rest = [] \<or> \<not> tailByte (hd rest)"
  shows "collapsed (w @ rest)"
  using assms(1)
proof (induction w)
  case Nil
  show ?case using assms(2) by simp
next
  case (Cons c w)
  have "spaceWidth ((c # w) @ rest) = spaceWidth (c # w)"
    using assms(3) by (intro spaceWidth_append) simp_all
  with Cons show ?case by simp
qed

lemma collapsed_Join:
  assumes "\<forall>w \<in> set ws. w \<noteq> [] \<and> noSpace w"
  shows "collapsed (Join ws '' '')"
  using assms
proof (induction ws "'' ''" rule: Join.induct)
  case 1
  show ?case by simp
next
  case (2 a)
  then have "collapsed (a @ [])" by (intro collapsed_word) simp_all
  then show ?case by simp
next
  case (3 a b rest)
  have j: "spaceWidth (Join (b # rest) '' '') = 0"
    using 3(2) by (intro spaceWidth_Join) simp
  have "collapsed (Join (b # rest) '' '')" using 3 by simp
  with j have "collapsed ('' '' @ Join (b # rest) '' '')"
    by (simp add: spaceWidth_space)
  moreover from 3(2) have "noSpace a" by simp
  ultimately have "collapsed (a @ '' '' @ Join (b # rest) '' '')"
    using collapsed_word [of a "'' '' @ Join (b # rest) '' ''"]
    by (simp add: not_tailByte_space)
  then show ?case by simp
qed

lemma Join_last:
  "ws \<noteq> [] \<Longrightarrow> \<exists>x. Join ws sep = x @ last ws \<and> (x = [] \<or> (\<exists>y. x = y @ sep))"
proof (induction ws sep rule: Join.induct)
  case (1 sep)
  then show ?case by simp
next
  case (2 a sep)
  show ?case by simp
next
  case (3 a b rest sep)
  then obtain x where x: "Join (b # rest) sep = x @ last (b # rest)"
    "x = [] \<or> (\<exists>y. x = y @ sep)" by auto
  have "Join (a # b # rest) sep = (a @ sep @ x) @ last (a # b # rest)"
    using x(1) by simp
  moreover have "\<exists>y. a @ sep @ x = y @ sep"
  proof (cases "x = []")
    case True
    then show ?thesis by auto
  next
    case False
    with x(2) obtain y where "x = y @ sep" by auto
    then have "a @ sep @ x = (a @ sep @ y) @ sep" by simp
    then show ?thesis by blast
  qed
  ultimately show ?case by blast
qed

lemma lastSpaceWidth_Join:
  assumes "\<forall>w \<in> set ws. w \<noteq> [] \<and> noSpace w"
  shows "lastSpaceWidth (Join ws '' '') = 0"
proof -
  have "\<not> HasSuffix (Join ws '' '') p" if p: "p \<in> set whiteSpace" for p
  proof
    assume "HasSuffix (Join ws '' '') p"
    then obtain zs where zs: "Join ws '' '' = zs @ p" by (auto simp: HasSuffix_iff)
    from whiteSpace_nonempty [OF p] zs have "ws \<noteq> []" by (cases ws) auto
    from Join_last [OF this, of "'' ''"] obtain x
      where x: "Join ws '' '' = x @ last ws" "x = [] \<or> (\<exists>y. x = y @ '' '')"
      by blast
    let ?w = "last ws"
    from \<open>ws \<noteq> []\<close> assms have w: "?w \<noteq> []" "noSpace ?w" by simp_all
    from zs x(1) have "zs @ p = x @ ?w" by simp
    then obtain us where us: "(zs = x @ us \<and> us @ p = ?w) \<or> (zs @ us = x \<and> p = us @ ?w)"
      by (auto simp: append_eq_append_conv2)
    show False
    proof (cases "zs = x @ us \<and> us @ p = ?w")
      case True
      then have "drop (length us) ?w = p" by (metis append_eq_conv_conj)
      moreover from True whiteSpace_nonempty [OF p] have "length us < length ?w"
        by (metis length_append length_greater_0_conv less_add_same_cancel1)
      ultimately have "spaceWidth p = 0" using w(2) by (auto simp: noSpace_iff)
      with whiteSpace_width [OF p] whiteSpace_nonempty [OF p] show False by simp
    next
      case False
      with us have u: "zs @ us = x" "p = us @ ?w" by auto
      show False
      proof (cases "us = []")
        case True
        with u have "drop 0 ?w = p" by simp
        with w have "spaceWidth p = 0" using noSpace_iff [of ?w] by (metis length_greater_0_conv)
        with whiteSpace_width [OF p] whiteSpace_nonempty [OF p] show False by simp
      next
        case False
        with u(1) have "x \<noteq> []" by auto
        with x(2) obtain y where "x = y @ '' ''" by auto
        with u(1) False have "last us = CHR '' ''"
          by (metis last_appendR last_snoc)
        with False have "CHR '' '' \<in> set us" by (metis last_in_set)
        with u(2) have sp: "CHR '' '' \<in> set p" by simp
        from u(2) False w(1) have "1 < length p" by (cases us; cases ?w) auto
        from whiteSpace_multibyte [OF p this sp] show False by simp
      qed
    qed
  qed
  then show ?thesis by (simp add: lastSpaceWidth_zero_iff)
qed

subsection \<open>Truncation\<close>

lemma spaceWidth_dot: "spaceWidth (CHR ''.'' # t) = 0"
  by (simp add: spaceWidth_def whiteSpace_def HasPrefix_def)

lemma not_tailByte_dot: "\<not> tailByte (CHR ''.'')"
  by (simp add: tailByte_def)

lemma spaceWidth_ellipsis:
  assumes "spaceWidth n = 0"
  shows "spaceWidth (take k n @ ''...'') = 0"
proof (cases "take k n = []")
  case True
  show ?thesis unfolding True by (simp add: spaceWidth_dot)
next
  case False
  then have "spaceWidth (take k n @ ''...'') = spaceWidth (take k n)"
    by (intro spaceWidth_append) (simp_all add: not_tailByte_dot)
  with assms show ?thesis by (simp add: spaceWidth_take)
qed

lemma lastSpaceWidth_ellipsis: "lastSpaceWidth (x @ ''...'') = 0"
proof -
  have "\<not> HasSuffix (x @ ''...'') p" if p: "p \<in> set whiteSpace" for p
  proof
    assume "HasSuffix (x @ ''...'') p"
    then obtain zs where zs: "x @ ''...'' = zs @ p" by (auto simp: HasSuffix_iff)
    from whiteSpace_nonempty [OF p] have ne: "p \<noteq> []" .
    with zs have l: "last p = CHR ''.''" by (metis last_appendR last_snoc append_assoc append_Cons append_Nil)
    with ne have dot: "CHR ''.'' \<in> set p" by (metis last_in_set)
    show False
    proof (cases "1 < length p")
      case True
      from whiteSpace_multibyte [OF p True dot] show False by simp
    next
      case False
      with ne l have "p = [CHR ''.'']" by (cases p) auto
      with p whiteSpace_single [of "CHR ''.''"] show False by simp
    qed
  qed
  then show ?thesis by (simp add: lastSpaceWidth_zero_iff)
qed

lemma collapsed_ellipsis: "collapsed n \<Longrightarrow> collapsed (take k n @ ''...'')"
proof (induction n arbitrary: k)
  case Nil
  show ?case by (simp add: spaceWidth_dot)
next
  case (Cons c cs)
  show ?case
  proof (cases k)
    case 0
    then show ?thesis by (simp add: spaceWidth_dot)
  next
    case (Suc j)
    show ?thesis
    proof (cases "spaceWidth (c # cs) = 0")
      case True
      then have "spaceWidth (take (Suc j) (c # cs) @ ''...'') = 0"
        by (rule spaceWidth_ellipsis)
      moreover from True Cons have "collapsed (take j cs @ ''...'')" by simp
      ultimately show ?thesis using Suc by simp
    next
      case False
      with Cons.prems have c: "c = CHR '' ''" "spaceWidth cs = 0" "collapsed cs" by simp_all
      from c(2) have "spaceWidth (take j cs @ ''...'') = 0" by (rule spaceWidth_ellipsis)
      moreover from c(3) have "collapsed (take j cs @ ''...'')" by (rule Cons.IH)
      ultimately show ?thesis using Suc c(1) by (simp add: spaceWidth_space)
    qed
  qed
qed

text \<open>
  C9. Snippet extraction returns a string for every node and never panics. The text it
  starts from is the slice of the raw source bytes from the start offset to the end
  offset when the bytes are present and the offsets are valid, and the re-rendered node
  otherwise. The result is that text with its fields (the maximal runs without white
  space) joined by single spaces, cut to its first 200 bytes with \<open>...\<close> appended when
  it is longer than 200 bytes: it has no white space at either end, every white space
  rune in it is a single space, and it has at most 203 bytes. Only when no source slice
  is taken and both renderers return an error is the result the placeholder
  \<open><unprintable>\<close>.
\<close>

theorem extractSnippet_never_fails:
  "\<exists>snippet. extractSnippet pd ni = Inr snippet
     \<and> trimmed snippet \<and> collapsed snippet \<and> length snippet \<le> 203
     \<and> (case snippetSource pd ni of
           None \<Rightarrow> snippet = ''<unprintable>''
         | Some raw \<Rightarrow>
             Fields (Join (Fields raw) '' '') = Fields raw
             \<and> snippet =
                 (if length (Join (Fields raw) '' '') \<le> 200 then Join (Fields raw) '' ''
                  else take 200 (Join (Fields raw) '' '') @ ''...''))"
proof -
  have norm: "truncateSnippet raw =
      Inr (if length (Join (Fields raw) '' '') \<le> 200 then Join (Fields raw) '' ''
           else take 200 (Join (Fields raw) '' '') @ ''...'')" for raw
    by (simp add: truncateSnippet_eq Fields_TrimSpace)
  have words: "\<forall>w \<in> set (Fields raw). w \<noteq> [] \<and> noSpace w" for raw
    using Fields_words by blast
  have good: "trimmed t \<and> collapsed t \<and> length t \<le> 203"
    if "t = (if length (Join (Fields raw) '' '') \<le> 200 then Join (Fields raw) '' ''
           else take 200 (Join (Fields raw) '' '') @ ''...'')" for t raw
  proof (cases "length (Join (Fields raw) '' '') \<le> 200")
    case True
    with that show ?thesis
      by (simp add: trimmed_def spaceWidth_Join lastSpaceWidth_Join collapsed_Join words)
  next
    case False
    with that show ?thesis
      by (simp add: trimmed_def spaceWidth_ellipsis spaceWidth_Join lastSpaceWidth_ellipsis
          collapsed_ellipsis collapsed_Join words)
  qed
  have placeholder: "trimmed ''<unprintable>'' \<and> collapsed ''<unprintable>''"
    by code_simp
  have fields: "Fields (Join (Fields raw) '' '') = Fields raw" for raw
    by (rule Fields_Join [OF words])
  show ?thesis
  proof (cases "snippetSource pd ni")
    case None
    then have "extractSnippet pd ni = Inr ''<unprintable>''"
      by (auto simp: snippetSource_def rendered_def extractSnippet_def Let_def
          split: option.splits if_splits)
    moreover have "length ''<unprintable>'' \<le> 203" by simp
    ultimately show ?thesis unfolding None option.case using placeholder by blast
  next
    case (Some raw)
    then have "extractSnippet pd ni = truncateSnippet raw"
      by (auto simp: snippetSource_def rendered_def extractSnippet_def Let_def goSlice_def
          split: option.splits if_splits)
    with norm [of raw] have "extractSnippet pd ni =
      Inr (if length (Join (Fields raw) '' '') \<le> 200 then Join (Fields raw) '' ''
           else take 200 (Join (Fields raw) '' '') @ ''...'')"
      by simp
    then show ?thesis
      unfolding Some option.case using good [OF refl, of raw] fields [of raw] by blast
  qed
qed

theorem extractSnippet_never_fails_witness:
  "extractSnippet ex_src_pd ex_src_ni = Inr ''r.Get(ctx, req.NamespacedName, obj)''
   \<and> trimmed ''r.Get(ctx, req.NamespacedName, obj)''
   \<and> collapsed ''r.Get(ctx, req.NamespacedName, obj)''
   \<and> extractSnippet ex_pd
        \<lparr>posLine = 1, posOffset = 0, endOffset = 0,
         fprint = Some (replicate 201 (CHR ''x'')), formatNode = None\<rparr> =
      Inr (replicate 200 (CHR ''x'') @ ''...'')
   \<and> extractSnippet ex_pd
        \<lparr>posLine = 1, posOffset = 0, endOffset = 0, fprint = None, formatNode = None\<rparr> =
      Inr ''<unprintable>''"
proof -
  have a: "extractSnippet ex_src_pd ex_src_ni = Inr ''r.Get(ctx, req.NamespacedName, obj)''"
    by code_simp
  from extractSnippet_never_fails [of ex_src_pd ex_src_ni] obtain snippet
    where s: "extractSnippet ex_src_pd ex_src_ni = Inr snippet" "trimmed snippet"
      "collapsed snippet"
    by blast
  from s(1) a have "snippet = ''r.Get(ctx, req.NamespacedName, obj)''" by simp
  with s have b: "trimmed ''r.Get(ctx, req.NamespacedName, obj)''"
    and c: "collapsed ''r.Get(ctx, req.NamespacedName, obj)''"
    by blast+
  let ?long = "\<lparr>posLine = 1, posOffset = 0, endOffset = 0,
         fprint = Some (replicate 201 (CHR ''x'')), formatNode = None\<rparr>"
  have x: "spaceWidth (CHR ''x'' # t) = 0" for t
    by (simp add: spaceWidth_def whiteSpace_def HasPrefix_def)
  have "noSpace (replicate n (CHR ''x''))" for n
    by (induction n) (simp_all add: x)
  then have "fieldsFrom [] (replicate 201 (CHR ''x'') @ []) =
      fieldsFrom ([] @ replicate 201 (CHR ''x'')) []"
    by (intro fieldsFrom_word) simp_all
  then have f: "Fields (replicate 201 (CHR ''x'')) = [replicate 201 (CHR ''x'')]"
    by (simp add: Fields_def)
  have src: "snippetSource ex_pd ?long = Some (replicate 201 (CHR ''x''))"
    by (simp add: snippetSource_def rendered_def ex_pd_def NewPatternDetector_def)
  from extractSnippet_never_fails [of ex_pd ?long]
  have d: "extractSnippet ex_pd ?long = Inr (replicate 200 (CHR ''x'') @ ''...'')"
    unfolding src option.case f by auto
  have e: "extractSnippet ex_pd
        \<lparr>posLine = 1, posOffset = 0, endOffset = 0, fprint = None, formatNode = None\<rparr> =
      Inr ''<unprintable>''"
    by code_simp
  show ?thesis by (rule conjI [OF a conjI [OF b conjI [OF c conjI [OF d e]]]])
qed

end
